theory Spec2Isabelle
  imports Complex_Main "HOL-Library.Multiset"
begin

section \<open>Floating-point numbers\<close>

text \<open>
  The coordinates, distances and lengths of the program have the C type
  \<^verbatim>\<open>double\<close>. The model takes it to be the binary64 format of IEEE 754 with
  every operation rounded on its own to the nearest value, ties to the even
  significand (no excess precision and no fused multiply-add, as on x86-64).

  A \<open>double\<close> is a finite value, an infinity or a NaN. \<open>Fin x\<close> stands for the
  finite value \<open>x\<close>; the operations below only produce \<open>Fin x\<close> for values \<open>x\<close>
  of the format. The two zeros are one value \<open>Fin 0\<close>: the operations used by
  the program (\<^verbatim>\<open>+\<close>, \<^verbatim>\<open>-\<close>, \<^verbatim>\<open>*\<close>, \<^verbatim>\<open>sqrt\<close>, \<^verbatim>\<open>fabs\<close>, \<^verbatim>\<open><\<close>, \<^verbatim>\<open>!=\<close>) give the same
  result for both, up to the sign of a zero result.
\<close>

datatype double = Fin real | PInf | NInf | NaN

text \<open>
  Rounding an exact result. \<open>expo x\<close> is the exponent \<open>e\<close> with
  \<open>2\<^sup>e \<le> \<bar>x\<bar> < 2\<^sup>e\<^sup>+\<^sup>1\<close>. The significand has 53 bits, so the values of the format
  around \<open>x\<close> are the multiples of \<open>2\<^sup>e\<^sup>-\<^sup>5\<^sup>2\<close>, and the multiples of \<open>2\<^sup>-\<^sup>1\<^sup>0\<^sup>7\<^sup>4\<close> in
  the subnormal range. A result that rounds to \<open>2\<^sup>1\<^sup>0\<^sup>2\<^sup>4\<close> or beyond overflows to an
  infinity.
\<close>

definition expo :: "real \<Rightarrow> int" where
  "expo x = \<lfloor>log 2 \<bar>x\<bar>\<rfloor>"

definition ulp :: "real \<Rightarrow> real" where
  "ulp x = 2 powr of_int (max (expo x - 52) (- 1074))"

definition nearest_even :: "real \<Rightarrow> int" where
  "nearest_even y =
     (let n = \<lfloor>y\<rfloor>
      in if y - of_int n < 1 / 2 then n
         else if 1 / 2 < y - of_int n then n + 1
         else if even n then n else n + 1)"

definition round_double :: "real \<Rightarrow> double" where
  "round_double x =
     (if x = 0 then Fin 0
      else (let r = of_int (nearest_even (x / ulp x)) * ulp x
            in if 2 ^ 1024 \<le> \<bar>r\<bar> then (if 0 < x then PInf else NInf) else Fin r))"

text \<open>
  The operations of the program on \<^verbatim>\<open>double\<close>. A comparison with a NaN is false.
  The constant \<^verbatim>\<open>0\<close> of the program is \<open>0\<close>, and a decimal constant such as
  \<^verbatim>\<open>1e9\<close> or \<^verbatim>\<open>1e-8\<close> is the rounded value \<open>round_double 1000000000\<close> or
  \<open>round_double (1 / 10 ^ 8)\<close>. The test \<^verbatim>\<open>x != 0\<close> is \<open>x \<noteq> 0\<close>: it holds of a NaN.
\<close>

instantiation double :: "{zero, uminus, plus, minus, times, abs, ord}"
begin

definition zero_double :: double where
  "zero_double = Fin 0"

fun uminus_double :: "double \<Rightarrow> double" where
  "uminus_double (Fin x) = Fin (- x)"
| "uminus_double PInf = NInf"
| "uminus_double NInf = PInf"
| "uminus_double NaN = NaN"

fun plus_double :: "double \<Rightarrow> double \<Rightarrow> double" where
  "plus_double (Fin x) (Fin y) = round_double (x + y)"
| "plus_double NaN b = NaN"
| "plus_double a NaN = NaN"
| "plus_double PInf NInf = NaN"
| "plus_double NInf PInf = NaN"
| "plus_double PInf b = PInf"
| "plus_double a PInf = PInf"
| "plus_double NInf b = NInf"
| "plus_double a NInf = NInf"

definition minus_double :: "double \<Rightarrow> double \<Rightarrow> double" where
  "minus_double a b = a + (- b)"

fun times_double :: "double \<Rightarrow> double \<Rightarrow> double" where
  "times_double (Fin x) (Fin y) = round_double (x * y)"
| "times_double NaN b = NaN"
| "times_double a NaN = NaN"
| "times_double (Fin x) PInf = (if x = 0 then NaN else if 0 < x then PInf else NInf)"
| "times_double (Fin x) NInf = (if x = 0 then NaN else if 0 < x then NInf else PInf)"
| "times_double PInf (Fin y) = (if y = 0 then NaN else if 0 < y then PInf else NInf)"
| "times_double NInf (Fin y) = (if y = 0 then NaN else if 0 < y then NInf else PInf)"
| "times_double PInf PInf = PInf"
| "times_double NInf NInf = PInf"
| "times_double PInf NInf = NInf"
| "times_double NInf PInf = NInf"

fun abs_double :: "double \<Rightarrow> double" where
  "abs_double (Fin x) = Fin \<bar>x\<bar>"
| "abs_double PInf = PInf"
| "abs_double NInf = PInf"
| "abs_double NaN = NaN"

fun less_double :: "double \<Rightarrow> double \<Rightarrow> bool" where
  "less_double (Fin x) (Fin y) = (x < y)"
| "less_double (Fin x) PInf = True"
| "less_double NInf (Fin y) = True"
| "less_double NInf PInf = True"
| "less_double a b = False"

definition less_eq_double :: "double \<Rightarrow> double \<Rightarrow> bool" where
  "less_eq_double a b = (a < b \<or> a = b \<and> a \<noteq> NaN)"

instance ..

end

text \<open>\<^verbatim>\<open>sqrt\<close> of \<^verbatim>\<open>math.h\<close>, correctly rounded.\<close>

fun sqrt_double :: "double \<Rightarrow> double" where
  "sqrt_double (Fin x) = (if x < 0 then NaN else round_double (sqrt x))"
| "sqrt_double PInf = PInf"
| "sqrt_double NInf = NaN"
| "sqrt_double NaN = NaN"

text \<open>\<^verbatim>\<open>isfinite\<close>: neither an infinity nor a NaN.\<close>

fun isfinite :: "double \<Rightarrow> bool" where
  "isfinite (Fin x) = True"
| "isfinite a = False"

section \<open>Data model of vecsort.c\<close>

text \<open>
  A \<^verbatim>\<open>vector_t\<close> is a node of a doubly linked list that carries the four
  coordinates of one segment.
\<close>

record vector =
  x1 :: double
  y1 :: double
  x2 :: double
  y2 :: double

text \<open>
  Nodes live in memory at addresses. A \<^verbatim>\<open>vector_t *\<close> is an \<open>addr option\<close>, with
  \<open>None\<close> for \<^verbatim>\<open>NULL\<close>. A \<^verbatim>\<open>vector_t **\<close>, as held by the field \<^verbatim>\<open>prev\<close> and
  by the variable \<^verbatim>\<open>iter\<close>, points to a place that holds a node pointer: either
  the field \<^verbatim>\<open>vectors\<close> of the \<open>k\<close>-th \<^verbatim>\<open>vectors_t\<close> of the array of passes
  (\<open>Head k\<close>) or the field \<^verbatim>\<open>next\<close> of the node at an address (\<open>NextOf a\<close>).
\<close>

type_synonym addr = nat

datatype ref = Head nat | NextOf addr

record node = vector +
  nextp :: "addr option"
  prevp :: "ref option"

record heap =
  heads :: "nat \<Rightarrow> addr option"
  nodes :: "addr \<Rightarrow> node"

text \<open>Reading and writing through a \<^verbatim>\<open>vector_t **\<close>.\<close>

definition load :: "heap \<Rightarrow> ref \<Rightarrow> addr option" where
  "load h r = (case r of Head k \<Rightarrow> heads h k | NextOf a \<Rightarrow> nextp (nodes h a))"

definition store :: "heap \<Rightarrow> ref \<Rightarrow> addr option \<Rightarrow> heap" where
  "store h r p =
     (case r of
        Head k \<Rightarrow> h\<lparr>heads := (heads h)(k := p)\<rparr>
      | NextOf a \<Rightarrow> h\<lparr>nodes := (nodes h)(a := (nodes h a)\<lparr>nextp := p\<rparr>)\<rparr>)"

text \<open>
  The program ends abnormally by the \<^verbatim>\<open>abort()\<close> of \<^verbatim>\<open>vector_optimize\<close>. A loop
  that follows \<^verbatim>\<open>next\<close> pointers need not end (the nodes may form a cycle), and
  the second loop of \<^verbatim>\<open>vector_refine\<close> dereferences \<^verbatim>\<open>NULL\<close> when it does not meet
  the node it looks for: the functions below return an \<open>option\<close>, and \<open>None\<close>
  stands for a run that yields no result in one of these two ways.
\<close>

datatype error = Abort

text \<open>\<^verbatim>\<open>fpeq\<close>: close enough for floating point work.\<close>

definition fpeq :: "double \<Rightarrow> double \<Rightarrow> bool" where
  "fpeq x y = (let eps = round_double (1 / 10 ^ 8) in \<bar>x - y\<bar> < eps)"

section \<open>The program\<close>

subsection \<open>Transit length and statistics\<close>

text \<open>The loop of \<^verbatim>\<open>vector_transit_len\<close>, started at the origin.\<close>

partial_function (option) transit_len_loop ::
    "heap \<Rightarrow> addr option \<Rightarrow> double \<Rightarrow> double \<Rightarrow> double \<Rightarrow> double option" where
  "transit_len_loop h v lx ly len_sum =
     (case v of
        None \<Rightarrow> Some len_sum
      | Some a \<Rightarrow>
          (let t_dx = lx - x1 (nodes h a);
               t_dy = ly - y1 (nodes h a);
               transit_len = sqrt_double (t_dx * t_dx + t_dy * t_dy)
           in transit_len_loop h (nextp (nodes h a)) (x2 (nodes h a)) (y2 (nodes h a))
                (if transit_len \<noteq> 0 then len_sum + transit_len
                 else len_sum)))"

definition vector_transit_len :: "heap \<Rightarrow> addr option \<Rightarrow> double option" where
  "vector_transit_len h v = transit_len_loop h v 0 0 0"

text \<open>
  \<^verbatim>\<open>vector_stats\<close> prints its four accumulators; the model returns them. The two
  counters are C \<^verbatim>\<open>int\<close>s that count list nodes; they are modelled by \<open>int\<close>,
  which agrees with the program for every chain of fewer than \<open>2^31\<close> nodes.
\<close>

record stats =
  cuts :: int
  cut_len_sum :: double
  transits :: int
  transit_len_sum :: double

partial_function (option) stats_loop ::
    "heap \<Rightarrow> addr option \<Rightarrow> double \<Rightarrow> double \<Rightarrow> stats \<Rightarrow> stats option" where
  "stats_loop h v lx ly st =
     (case v of
        None \<Rightarrow> Some st
      | Some a \<Rightarrow>
          (let t_dx = lx - x1 (nodes h a);
               t_dy = ly - y1 (nodes h a);
               transit_len = sqrt_double (t_dx * t_dx + t_dy * t_dy);
               st1 = (if transit_len \<noteq> 0
                      then st\<lparr>transits := transits st + 1,
                              transit_len_sum := transit_len_sum st + transit_len\<rparr>
                      else st);
               c_dx = x1 (nodes h a) - x2 (nodes h a);
               c_dy = y1 (nodes h a) - y2 (nodes h a);
               cut_len = sqrt_double (c_dx * c_dx + c_dy * c_dy);
               st2 = (if cut_len \<noteq> 0
                      then st1\<lparr>cuts := cuts st1 + 1,
                               cut_len_sum := cut_len_sum st1 + cut_len\<rparr>
                      else st1)
           in stats_loop h (nextp (nodes h a)) (x2 (nodes h a)) (y2 (nodes h a)) st2))"

definition vector_stats :: "heap \<Rightarrow> addr option \<Rightarrow> stats option" where
  "vector_stats h v =
     stats_loop h v 0 0 \<lparr>cuts = 0, cut_len_sum = 0, transits = 0, transit_len_sum = 0\<rparr>"

subsection \<open>Insertion into a store\<close>

text \<open>
  The \<^verbatim>\<open>while (*iter)\<close> loop of \<^verbatim>\<open>vector_create\<close>. All three tests sit inside the
  loop body, in this order. The result is \<open>None\<close> when one of the three \<^verbatim>\<open>return\<close>
  statements was taken, and otherwise the place \<^verbatim>\<open>iter\<close> at the end of the list.
\<close>

partial_function (option) vector_create_scan ::
    "heap \<Rightarrow> ref \<Rightarrow> double \<Rightarrow> double \<Rightarrow> double \<Rightarrow> double \<Rightarrow> ref option option" where
  "vector_create_scan h iter ax ay bx by =
     (case load h iter of
        None \<Rightarrow> Some (Some iter)
      | Some p \<Rightarrow>
          (if fpeq (x1 (nodes h p)) ax \<and> fpeq (y1 (nodes h p)) ay
              \<and> fpeq (x2 (nodes h p)) bx \<and> fpeq (y2 (nodes h p)) by then Some None
           else if fpeq (x1 (nodes h p)) bx \<and> fpeq (y1 (nodes h p)) by
              \<and> fpeq (x2 (nodes h p)) ax \<and> fpeq (y2 (nodes h p)) ay then Some None
           else if fpeq ax bx \<and> fpeq ay by then Some None
           else vector_create_scan h (NextOf p) ax ay bx by))"

text \<open>
  The node at the fresh address \<open>v\<close> is filled in and appended at the place
  \<^verbatim>\<open>iter\<close>.
\<close>

definition new_node :: "heap \<Rightarrow> ref \<Rightarrow> addr \<Rightarrow> double \<Rightarrow> double \<Rightarrow> double \<Rightarrow> double \<Rightarrow> heap" where
  "new_node h iter v ax ay bx by =
     (let h1 = h\<lparr>nodes := (nodes h)(v :=
                  \<lparr>x1 = ax, y1 = ay, x2 = bx, y2 = by, nextp = None, prevp = Some iter\<rparr>)\<rparr>
      in store h1 iter (Some v))"

text \<open>
  \<open>calloc_result\<close> is the pointer returned by \<^verbatim>\<open>calloc\<close>: when it is \<^verbatim>\<open>NULL\<close> the
  function returns without touching the store.
\<close>

definition vector_create ::
    "addr option \<Rightarrow> heap \<Rightarrow> ref \<Rightarrow> double \<Rightarrow> double \<Rightarrow> double \<Rightarrow> double \<Rightarrow> heap option" where
  "vector_create calloc_result h vectors ax ay bx by =
     (case vector_create_scan h vectors ax ay bx by of
        None \<Rightarrow> None
      | Some None \<Rightarrow> Some h
      | Some (Some iter) \<Rightarrow>
          (case calloc_result of
             None \<Rightarrow> Some h
           | Some v \<Rightarrow> Some (new_node h iter v ax ay bx by)))"

subsection \<open>Closest-endpoint search and removal\<close>

text \<open>The \<^verbatim>\<open>while (v)\<close> loop of \<^verbatim>\<open>vector_find_closest\<close>.\<close>

partial_function (option) find_closest_loop ::
    "heap \<Rightarrow> addr option \<Rightarrow> double \<Rightarrow> double \<Rightarrow> double \<Rightarrow> addr option \<Rightarrow> bool
      \<Rightarrow> (double \<times> addr option \<times> bool) option" where
  "find_closest_loop h v cx cy best_dist best do_reverse =
     (case v of
        None \<Rightarrow> Some (best_dist, best, do_reverse)
      | Some a \<Rightarrow>
          (let dx1 = cx - x1 (nodes h a);
               dy1 = cy - y1 (nodes h a);
               dist1 = dx1 * dx1 + dy1 * dy1;
               (best_dist1, best1, do_reverse1) =
                 (if dist1 < best_dist then (dist1, Some a, False)
                  else (best_dist, best, do_reverse));
               dx2 = cx - x2 (nodes h a);
               dy2 = cy - y2 (nodes h a);
               dist2 = dx2 * dx2 + dy2 * dy2;
               (best_dist2, best2, do_reverse2) =
                 (if dist2 < best_dist1 then (dist2, Some a, True)
                  else (best_dist1, best1, do_reverse1))
           in find_closest_loop h (nextp (nodes h a)) cx cy best_dist2 best2 do_reverse2))"

text \<open>
  Removing \<^verbatim>\<open>best\<close> from the list: \<^verbatim>\<open>*best->prev = best->next\<close>, then
  \<^verbatim>\<open>best->next->prev = best->prev\<close>, each under its test.
\<close>

definition unlink_node :: "heap \<Rightarrow> addr \<Rightarrow> heap" where
  "unlink_node h best =
     (let h1 = (case prevp (nodes h best) of
                  None \<Rightarrow> h
                | Some r \<Rightarrow> store h r (nextp (nodes h best)))
      in case nextp (nodes h1 best) of
           None \<Rightarrow> h1
         | Some n \<Rightarrow> h1\<lparr>nodes := (nodes h1)(n := (nodes h1 n)\<lparr>prevp := prevp (nodes h1 best)\<rparr>)\<rparr>)"

text \<open>Flipping \<^verbatim>\<open>x1/x2\<close> and \<^verbatim>\<open>y1/y2\<close> of \<^verbatim>\<open>best\<close>.\<close>

definition flip_node :: "heap \<Rightarrow> addr \<Rightarrow> heap" where
  "flip_node h best =
     h\<lparr>nodes := (nodes h)(best := (nodes h best)
        \<lparr>x1 := x2 (nodes h best), y1 := y2 (nodes h best),
         x2 := x1 (nodes h best), y2 := y1 (nodes h best)\<rparr>)\<rparr>"

text \<open>\<^verbatim>\<open>best->next = NULL; best->prev = NULL\<close>.\<close>

definition clear_links :: "heap \<Rightarrow> addr \<Rightarrow> heap" where
  "clear_links h best =
     h\<lparr>nodes := (nodes h)(best := (nodes h best)\<lparr>nextp := None, prevp := None\<rparr>)\<rparr>"

text \<open>The three steps in the order of the source.\<close>

definition take_node :: "heap \<Rightarrow> addr \<Rightarrow> bool \<Rightarrow> heap" where
  "take_node h best do_reverse =
     (let h2 = unlink_node h best;
          h3 = (if do_reverse then flip_node h2 best else h2)
      in clear_links h3 best)"

text \<open>
  \<^verbatim>\<open>vector_find_closest\<close> returns the pointer \<^verbatim>\<open>best\<close>; the model returns it with
  the memory it leaves.
\<close>

definition vector_find_closest ::
    "heap \<Rightarrow> addr option \<Rightarrow> double \<Rightarrow> double \<Rightarrow> (heap \<times> addr option) option" where
  "vector_find_closest h v cx cy =
     (case find_closest_loop h v cx cy (round_double 1000000000) None False of
        None \<Rightarrow> None
      | Some (best_dist, None, do_reverse) \<Rightarrow> Some (h, None)
      | Some (best_dist, Some best, do_reverse) \<Rightarrow>
          Some (take_node h best do_reverse, Some best))"

subsection \<open>Greedy sequencing\<close>

text \<open>
  Adding \<^verbatim>\<open>v\<close> to the tail of the chain: \<^verbatim>\<open>v->next = NULL\<close>,
  \<^verbatim>\<open>v->prev = &vs_tail->next\<close>, \<^verbatim>\<open>vs_tail->next = v\<close>.
\<close>

definition append_node :: "heap \<Rightarrow> addr \<Rightarrow> addr \<Rightarrow> heap" where
  "append_node h vs_tail v =
     (let h1 = h\<lparr>nodes := (nodes h)(v := (nodes h v)\<lparr>nextp := None\<rparr>)\<rparr>;
          h2 = h1\<lparr>nodes := (nodes h1)(v := (nodes h1 v)\<lparr>prevp := Some (NextOf vs_tail)\<rparr>)\<rparr>
      in h2\<lparr>nodes := (nodes h2)(vs_tail := (nodes h2 vs_tail)\<lparr>nextp := Some v\<rparr>)\<rparr>)"

text \<open>
  The \<^verbatim>\<open>while (*vectors)\<close> loop of \<^verbatim>\<open>vector_optimize\<close>. The two pointers \<^verbatim>\<open>vs\<close>
  and \<^verbatim>\<open>vs_tail\<close> are \<^verbatim>\<open>NULL\<close> together, before the first node is placed, and set
  together afterwards: \<open>chain\<close> is \<open>None\<close> in the first case and \<open>Some (vs, vs_tail)\<close>
  in the second. A \<^verbatim>\<open>NULL\<close> from \<^verbatim>\<open>vector_find_closest\<close> ends the program by
  \<^verbatim>\<open>abort()\<close>.
\<close>

partial_function (option) optimize_loop ::
    "heap \<Rightarrow> ref \<Rightarrow> (addr \<times> addr) option \<Rightarrow> double \<Rightarrow> double
      \<Rightarrow> (error + heap \<times> (addr \<times> addr) option \<times> double \<times> double) option" where
  "optimize_loop h vectors chain cx cy =
     (case load h vectors of
        None \<Rightarrow> Some (Inr (h, chain, cx, cy))
      | Some p \<Rightarrow>
          (case vector_find_closest h (load h vectors) cx cy of
             None \<Rightarrow> None
           | Some (h1, None) \<Rightarrow> Some (Inl Abort)
           | Some (h1, Some v) \<Rightarrow>
               (case chain of
                  None \<Rightarrow>
                    optimize_loop h1 vectors (Some (v, v))
                      (x2 (nodes h1 v)) (y2 (nodes h1 v))
                | Some (vs, vs_tail) \<Rightarrow>
                    (let h2 = append_node h1 vs_tail v
                     in optimize_loop h2 vectors (Some (vs, v))
                          (x2 (nodes h2 v)) (y2 (nodes h2 v))))))"

text \<open>Updating the pointers: \<^verbatim>\<open>*vectors = vs\<close> and, if \<^verbatim>\<open>vs\<close>, \<^verbatim>\<open>vs->prev = vectors\<close>.\<close>

definition finish_chain :: "heap \<Rightarrow> ref \<Rightarrow> addr option \<Rightarrow> heap" where
  "finish_chain h vectors vs =
     (let h1 = store h vectors vs
      in case vs of
           None \<Rightarrow> h1
         | Some a \<Rightarrow> h1\<lparr>nodes := (nodes h1)(a := (nodes h1 a)\<lparr>prevp := Some vectors\<rparr>)\<rparr>)"

text \<open>
  \<^verbatim>\<open>vector_optimize\<close> returns \<^verbatim>\<open>vs\<close> and stores the final position in \<^verbatim>\<open>*cx_ptr\<close>,
  \<^verbatim>\<open>*cy_ptr\<close>; the model returns these with the memory.
\<close>

definition vector_optimize ::
    "heap \<Rightarrow> ref \<Rightarrow> double \<Rightarrow> double \<Rightarrow> (error + heap \<times> addr option \<times> double \<times> double) option" where
  "vector_optimize h vectors cx cy =
     (case optimize_loop h vectors None cx cy of
        None \<Rightarrow> None
      | Some (Inl e) \<Rightarrow> Some (Inl e)
      | Some (Inr (h1, chain, ex, ey)) \<Rightarrow>
          Some (Inr (finish_chain h1 vectors (map_option fst chain),
                     map_option fst chain, ex, ey)))"

subsection \<open>Transit refinement\<close>

text \<open>The first loop of \<^verbatim>\<open>vector_refine\<close>, which looks for the longest transit.\<close>

partial_function (option) longest_transit_loop ::
    "heap \<Rightarrow> addr option \<Rightarrow> double \<Rightarrow> double \<Rightarrow> double \<Rightarrow> addr option
      \<Rightarrow> (double \<times> addr option) option" where
  "longest_transit_loop h v cx cy max_transit transit_v =
     (case v of
        None \<Rightarrow> Some (max_transit, transit_v)
      | Some a \<Rightarrow>
          (let t_dx = cx - x1 (nodes h a);
               t_dy = cy - y1 (nodes h a);
               transit_len = sqrt_double (t_dx * t_dx + t_dy * t_dy)
           in if \<not> fpeq transit_len 0 \<and> max_transit < transit_len
              then longest_transit_loop h (nextp (nodes h a))
                     (x2 (nodes h a)) (y2 (nodes h a)) transit_len (Some a)
              else longest_transit_loop h (nextp (nodes h a))
                     (x2 (nodes h a)) (y2 (nodes h a)) max_transit transit_v))"

text \<open>
  The \<^verbatim>\<open>for\<close> loop over the nodes before \<^verbatim>\<open>transit_v\<close>, which looks for the
  closest end point. It reads \<^verbatim>\<open>v->x2\<close> without a test of \<^verbatim>\<open>v\<close>.
\<close>

partial_function (option) closest_loop ::
    "heap \<Rightarrow> addr option \<Rightarrow> addr \<Rightarrow> double \<Rightarrow> addr option \<Rightarrow> (double \<times> addr option) option" where
  "closest_loop h v transit_v min_dist closest =
     (if v = Some transit_v then Some (min_dist, closest)
      else case v of
             None \<Rightarrow> None
           | Some a \<Rightarrow>
               (let dx = x2 (nodes h a) - x1 (nodes h transit_v);
                    dy = y2 (nodes h a) - y1 (nodes h transit_v);
                    dist_v = dx * dx + dy * dy
                in if min_dist < dist_v
                   then closest_loop h (nextp (nodes h a)) transit_v min_dist closest
                   else closest_loop h (nextp (nodes h a)) transit_v dist_v (Some a)))"

text \<open>
  Removing \<^verbatim>\<open>transit_v\<close> from the list: \<^verbatim>\<open>transit_v->next->prev = transit_v->prev\<close>,
  then \<^verbatim>\<open>*transit_v->prev = transit_v->next\<close>, each under its test.
\<close>

definition remove_node :: "heap \<Rightarrow> addr \<Rightarrow> heap" where
  "remove_node h transit_v =
     (let h1 = (case nextp (nodes h transit_v) of
                  None \<Rightarrow> h
                | Some n \<Rightarrow>
                    h\<lparr>nodes := (nodes h)(n := (nodes h n)\<lparr>prevp := prevp (nodes h transit_v)\<rparr>)\<rparr>)
      in case prevp (nodes h1 transit_v) of
           None \<Rightarrow> h1
         | Some r \<Rightarrow> store h1 r (nextp (nodes h1 transit_v)))"

text \<open>Re-inserting \<^verbatim>\<open>transit_v\<close> after \<^verbatim>\<open>closest\<close>: the four assignments in order.\<close>

definition insert_after :: "heap \<Rightarrow> addr \<Rightarrow> addr \<Rightarrow> heap" where
  "insert_after h closest transit_v =
     (let h1 = h\<lparr>nodes := (nodes h)(transit_v :=
                   (nodes h transit_v)\<lparr>nextp := nextp (nodes h closest)\<rparr>)\<rparr>;
          h2 = h1\<lparr>nodes := (nodes h1)(transit_v :=
                   (nodes h1 transit_v)\<lparr>prevp := Some (NextOf closest)\<rparr>)\<rparr>;
          h3 = h2\<lparr>nodes := (nodes h2)(closest :=
                   (nodes h2 closest)\<lparr>nextp := Some transit_v\<rparr>)\<rparr>
      in case nextp (nodes h3 transit_v) of
           None \<Rightarrow> h3
         | Some n \<Rightarrow>
             h3\<lparr>nodes := (nodes h3)(n := (nodes h3 n)\<lparr>prevp := Some (NextOf transit_v)\<rparr>)\<rparr>)"

text \<open>
  \<^verbatim>\<open>vector_refine\<close> returns the reduction of the transit length, rewrites the
  chain in place and stores the final position through its two pointers; the
  model returns the memory, the position and the reduction. On both early
  returns nothing has been written. The \<^verbatim>\<open>abort()\<close> of the nested
  \<^verbatim>\<open>vector_optimize\<close> is passed on.
\<close>

definition vector_refine ::
    "heap \<Rightarrow> addr option \<Rightarrow> double \<Rightarrow> double \<Rightarrow> (error + heap \<times> double \<times> double \<times> double) option" where
  "vector_refine h vector cx cy =
     (case vector_transit_len h vector of
        None \<Rightarrow> None
      | Some initial_transit_len \<Rightarrow>
          (case longest_transit_loop h vector cx cy 0 None of
             None \<Rightarrow> None
           | Some (max_transit, None) \<Rightarrow> Some (Inr (h, cx, cy, 0))
           | Some (max_transit, Some transit_v) \<Rightarrow>
               (case closest_loop h vector transit_v (round_double 1000000000) None of
                  None \<Rightarrow> None
                | Some (min_dist, None) \<Rightarrow> Some (Inr (h, cx, cy, 0))
                | Some (min_dist, Some closest) \<Rightarrow>
                    (let h1 = remove_node h transit_v;
                         h2 = insert_after h1 closest transit_v;
                         cx2 = x2 (nodes h2 transit_v);
                         cy2 = y2 (nodes h2 transit_v)
                     in case vector_optimize h2 (NextOf transit_v) cx2 cy2 of
                          None \<Rightarrow> None
                        | Some (Inl e) \<Rightarrow> Some (Inl e)
                        | Some (Inr (h3, vs, ex, ey)) \<Rightarrow>
                            (case vector_transit_len h3 vector of
                               None \<Rightarrow> None
                             | Some new_transit_len \<Rightarrow>
                                 Some (Inr (h3, ex, ey,
                                            initial_transit_len - new_transit_len)))))))"

section \<open>The functions on lists\<close>

text \<open>
  What a function of the program computes on a well-formed linked list depends
  only on the segments the list carries, in their order. The functions of this
  section work on that list of segments: a node is identified by its index, a
  node pointer is an index or \<open>None\<close>, unlinking a node removes an element, and
  where the program leaves its result in memory the function returns it. They
  follow the program statement by statement; the section on linked lists in
  memory proves that they give what the program computes.
\<close>

fun transit_len_loop_list :: "vector list \<Rightarrow> double \<Rightarrow> double \<Rightarrow> double \<Rightarrow> double" where
  "transit_len_loop_list [] lx ly len_sum = len_sum"
| "transit_len_loop_list (v # vs) lx ly len_sum =
     (let t_dx = lx - x1 v;
          t_dy = ly - y1 v;
          transit_len = sqrt_double (t_dx * t_dx + t_dy * t_dy)
      in transit_len_loop_list vs (x2 v) (y2 v)
           (if transit_len \<noteq> 0 then len_sum + transit_len else len_sum))"

definition vector_transit_len_list :: "vector list \<Rightarrow> double" where
  "vector_transit_len_list v = transit_len_loop_list v 0 0 0"

fun stats_loop_list :: "vector list \<Rightarrow> double \<Rightarrow> double \<Rightarrow> stats \<Rightarrow> stats" where
  "stats_loop_list [] lx ly st = st"
| "stats_loop_list (v # vs) lx ly st =
     (let t_dx = lx - x1 v;
          t_dy = ly - y1 v;
          transit_len = sqrt_double (t_dx * t_dx + t_dy * t_dy);
          st1 = (if transit_len \<noteq> 0
                 then st\<lparr>transits := transits st + 1,
                         transit_len_sum := transit_len_sum st + transit_len\<rparr>
                 else st);
          c_dx = x1 v - x2 v;
          c_dy = y1 v - y2 v;
          cut_len = sqrt_double (c_dx * c_dx + c_dy * c_dy);
          st2 = (if cut_len \<noteq> 0
                 then st1\<lparr>cuts := cuts st1 + 1,
                          cut_len_sum := cut_len_sum st1 + cut_len\<rparr>
                 else st1)
      in stats_loop_list vs (x2 v) (y2 v) st2)"

definition vector_stats_list :: "vector list \<Rightarrow> stats" where
  "vector_stats_list v =
     stats_loop_list v 0 0 \<lparr>cuts = 0, cut_len_sum = 0, transits = 0, transit_len_sum = 0\<rparr>"

fun vector_create_scan_list :: "vector list \<Rightarrow> double \<Rightarrow> double \<Rightarrow> double \<Rightarrow> double \<Rightarrow> bool" where
  "vector_create_scan_list [] ax ay bx by = False"
| "vector_create_scan_list (p # ps) ax ay bx by =
     (if fpeq (x1 p) ax \<and> fpeq (y1 p) ay \<and> fpeq (x2 p) bx \<and> fpeq (y2 p) by then True
      else if fpeq (x1 p) bx \<and> fpeq (y1 p) by \<and> fpeq (x2 p) ax \<and> fpeq (y2 p) ay then True
      else if fpeq ax bx \<and> fpeq ay by then True
      else vector_create_scan_list ps ax ay bx by)"

definition vector_create_list ::
    "bool \<Rightarrow> vector list \<Rightarrow> double \<Rightarrow> double \<Rightarrow> double \<Rightarrow> double \<Rightarrow> vector list" where
  "vector_create_list calloc_ok vectors ax ay bx by =
     (if vector_create_scan_list vectors ax ay bx by then vectors
      else if \<not> calloc_ok then vectors
      else vectors @ [\<lparr>x1 = ax, y1 = ay, x2 = bx, y2 = by\<rparr>])"

fun find_closest_loop_list ::
    "vector list \<Rightarrow> nat \<Rightarrow> double \<Rightarrow> double \<Rightarrow> double \<Rightarrow> nat option \<Rightarrow> bool
      \<Rightarrow> double \<times> nat option \<times> bool" where
  "find_closest_loop_list [] i cx cy best_dist best do_reverse = (best_dist, best, do_reverse)"
| "find_closest_loop_list (v # vs) i cx cy best_dist best do_reverse =
     (let dx1 = cx - x1 v;
          dy1 = cy - y1 v;
          dist1 = dx1 * dx1 + dy1 * dy1;
          (best_dist1, best1, do_reverse1) =
            (if dist1 < best_dist then (dist1, Some i, False)
             else (best_dist, best, do_reverse));
          dx2 = cx - x2 v;
          dy2 = cy - y2 v;
          dist2 = dx2 * dx2 + dy2 * dy2;
          (best_dist2, best2, do_reverse2) =
            (if dist2 < best_dist1 then (dist2, Some i, True)
             else (best_dist1, best1, do_reverse1))
      in find_closest_loop_list vs (Suc i) cx cy best_dist2 best2 do_reverse2)"

text \<open>Flipping a segment, and removing the element at index \<open>i\<close>.\<close>

definition flip :: "vector \<Rightarrow> vector" where
  "flip v = \<lparr>x1 = x2 v, y1 = y2 v, x2 = x1 v, y2 = y1 v\<rparr>"

definition unlink :: "nat \<Rightarrow> vector list \<Rightarrow> vector list" where
  "unlink i vs = take i vs @ drop (Suc i) vs"

definition vector_find_closest_list ::
    "vector list \<Rightarrow> double \<Rightarrow> double \<Rightarrow> (vector \<times> vector list) option" where
  "vector_find_closest_list v cx cy =
     (case find_closest_loop_list v 0 cx cy (round_double 1000000000) None False of
        (best_dist, None, do_reverse) \<Rightarrow> None
      | (best_dist, Some i, do_reverse) \<Rightarrow>
          Some (if do_reverse then flip (v ! i) else v ! i, unlink i v))"

lemma find_closest_loop_index:
  "find_closest_loop_list vs i cx cy bd best rv = (bd', Some k, rv')
   \<Longrightarrow> (\<forall>j. best = Some j \<longrightarrow> j < i + length vs) \<Longrightarrow> k < i + length vs"
proof (induction vs arbitrary: i bd best rv)
  case Nil
  then show ?case by simp
next
  case (Cons v vs)
  from Cons.prems show ?case
    by (auto simp: Let_def split: if_splits dest!: Cons.IH)
qed

lemma vector_find_closest_shorter:
  "vector_find_closest_list vs cx cy = Some (b, rest) \<Longrightarrow> length rest < length vs"
proof -
  assume a: "vector_find_closest_list vs cx cy = Some (b, rest)"
  then obtain bd k rv where l: "find_closest_loop_list vs 0 cx cy (round_double 1000000000) None False = (bd, Some k, rv)"
    and r: "rest = unlink k vs"
    by (auto simp: vector_find_closest_list_def split: prod.splits option.splits)
  from find_closest_loop_index [OF l] have "k < length vs" by simp
  with r show ?thesis by (simp add: unlink_def)
qed

function optimize_loop_list ::
    "vector list \<Rightarrow> vector list \<Rightarrow> double \<Rightarrow> double \<Rightarrow> error + (vector list \<times> double \<times> double)" where
  "optimize_loop_list vectors vs cx cy =
     (if vectors = [] then Inr (vs, cx, cy)
      else (case vector_find_closest_list vectors cx cy of
              None \<Rightarrow> Inl Abort
            | Some (v, rest) \<Rightarrow> optimize_loop_list rest (vs @ [v]) (x2 v) (y2 v)))"
  by pat_completeness auto

termination
  by (relation "measure (\<lambda>(vectors, vs, cx, cy). length vectors)")
     (auto dest: vector_find_closest_shorter)

declare optimize_loop_list.simps [simp del]

definition vector_optimize_list ::
    "vector list \<Rightarrow> double \<Rightarrow> double \<Rightarrow> error + (vector list \<times> double \<times> double)" where
  "vector_optimize_list vectors cx cy = optimize_loop_list vectors [] cx cy"

fun longest_transit_loop_list ::
    "vector list \<Rightarrow> nat \<Rightarrow> double \<Rightarrow> double \<Rightarrow> double \<Rightarrow> nat option \<Rightarrow> double \<times> nat option" where
  "longest_transit_loop_list [] i cx cy max_transit transit_v = (max_transit, transit_v)"
| "longest_transit_loop_list (v # vs) i cx cy max_transit transit_v =
     (let t_dx = cx - x1 v;
          t_dy = cy - y1 v;
          transit_len = sqrt_double (t_dx * t_dx + t_dy * t_dy)
      in if \<not> fpeq transit_len 0 \<and> max_transit < transit_len
         then longest_transit_loop_list vs (Suc i) (x2 v) (y2 v) transit_len (Some i)
         else longest_transit_loop_list vs (Suc i) (x2 v) (y2 v) max_transit transit_v)"

definition longest_transit_list :: "vector list \<Rightarrow> double \<Rightarrow> double \<Rightarrow> nat option" where
  "longest_transit_list vector cx cy = snd (longest_transit_loop_list vector 0 cx cy 0 None)"

fun closest_loop_list ::
    "vector list \<Rightarrow> nat \<Rightarrow> vector \<Rightarrow> double \<Rightarrow> nat option \<Rightarrow> double \<times> nat option" where
  "closest_loop_list [] i tv min_dist closest = (min_dist, closest)"
| "closest_loop_list (v # vs) i tv min_dist closest =
     (let dx = x2 v - x1 tv;
          dy = y2 v - y1 tv;
          dist_v = dx * dx + dy * dy
      in if min_dist < dist_v then closest_loop_list vs (Suc i) tv min_dist closest
         else closest_loop_list vs (Suc i) tv dist_v (Some i))"

definition closest_prior_list :: "vector list \<Rightarrow> nat \<Rightarrow> nat option" where
  "closest_prior_list vector t = snd (closest_loop_list (take t vector) 0 (vector ! t) (round_double 1000000000) None)"

definition vector_refine_list ::
    "vector list \<Rightarrow> double \<Rightarrow> double \<Rightarrow> error + (vector list \<times> double \<times> double \<times> double)" where
  "vector_refine_list vector cx cy =
     (let initial_transit_len = vector_transit_len_list vector
      in case longest_transit_list vector cx cy of
           None \<Rightarrow> Inr (vector, cx, cy, 0)
         | Some t \<Rightarrow>
             (case closest_prior_list vector t of
                None \<Rightarrow> Inr (vector, cx, cy, 0)
              | Some c \<Rightarrow>
                  (let transit_v = vector ! t;
                       removed = unlink t vector;
                       cx2 = x2 transit_v;
                       cy2 = y2 transit_v
                   in case vector_optimize_list (drop (Suc c) removed) cx2 cy2 of
                        Inl e \<Rightarrow> Inl e
                      | Inr (sorted_tail, ex, ey) \<Rightarrow>
                          (let relinked = take (Suc c) removed @ transit_v # sorted_tail;
                               new_transit_len = vector_transit_len_list relinked
                           in Inr (relinked, ex, ey,
                                   initial_transit_len - new_transit_len)))))"

section \<open>Notions used to state the properties\<close>

text \<open>
  The squared distances of \<^verbatim>\<open>vector_find_closest\<close>: from the point \<open>(cx, cy)\<close> to
  the A endpoint (\<^verbatim>\<open>dist1\<close>) and to the B endpoint (\<^verbatim>\<open>dist2\<close>) of a node.
\<close>

definition sqdist_A :: "double \<Rightarrow> double \<Rightarrow> vector \<Rightarrow> double" where
  "sqdist_A cx cy v = (cx - x1 v) * (cx - x1 v) + (cy - y1 v) * (cy - y1 v)"

definition sqdist_B :: "double \<Rightarrow> double \<Rightarrow> vector \<Rightarrow> double" where
  "sqdist_B cx cy v = (cx - x2 v) * (cx - x2 v) + (cy - y2 v) * (cy - y2 v)"

text \<open>
  A node is within the search radius of \<open>(cx, cy)\<close> when one of its two squared
  distances is below the constant \<^verbatim>\<open>1e9\<close> that seeds \<^verbatim>\<open>best_dist\<close>.
\<close>

definition in_radius :: "double \<Rightarrow> double \<Rightarrow> vector \<Rightarrow> bool" where
  "in_radius cx cy v =
     (sqdist_A cx cy v < round_double 1000000000 \<or> sqdist_B cx cy v < round_double 1000000000)"

text \<open>The endpoints of the segments of a list, A before B.\<close>

definition endpoints :: "vector list \<Rightarrow> (double \<times> double) list" where
  "endpoints vs = concat (map (\<lambda>v. [(x1 v, y1 v), (x2 v, y2 v)]) vs)"

text \<open>
  Every segment of the list is within the search radius of every position the
  pen can take while the list is sequenced from \<open>(cx, cy)\<close>: the start position
  and the endpoints of the segments.
\<close>

definition all_in_radius :: "vector list \<Rightarrow> double \<Rightarrow> double \<Rightarrow> bool" where
  "all_in_radius vs cx cy =
     list_all (\<lambda>(px, py). list_all (in_radius px py) vs) ((cx, cy) # endpoints vs)"

text \<open>
  The store can be sequenced from \<open>(cx, cy)\<close>: it is empty, or some segment has
  an endpoint within the search radius of the position of the pen and, the pen
  having moved to the B endpoint of the segment that the search takes out, the
  same holds of the rest of the store.
\<close>

function within_reach :: "vector list \<Rightarrow> double \<Rightarrow> double \<Rightarrow> bool" where
  "within_reach vs cx cy =
     (vs = []
      \<or> (\<exists>v\<in>set vs. in_radius cx cy v)
        \<and> (case vector_find_closest_list vs cx cy of
              None \<Rightarrow> False
            | Some (b, rest) \<Rightarrow> within_reach rest (x2 b) (y2 b)))"
  by pat_completeness auto

termination
  by (relation "measure (\<lambda>(vs, cx, cy). length vs)")
     (auto dest: vector_find_closest_shorter)

declare within_reach.simps [simp del]

text \<open>The two endpoints of a segment without their direction.\<close>

definition endpoint_pair :: "vector \<Rightarrow> (double \<times> double) set" where
  "endpoint_pair v = {(x1 v, y1 v), (x2 v, y2 v)}"

text \<open>
  The scenario of the specification: three segments, the second stored so that
  its B endpoint is the nearer one when its turn comes.
\<close>

definition scenario_store :: "vector list" where
  "scenario_store =
     [\<lparr>x1 = Fin 0, y1 = Fin 0, x2 = Fin 1, y2 = Fin 0\<rparr>,
      \<lparr>x1 = Fin 5, y1 = Fin 6, x2 = Fin 5, y2 = Fin 5\<rparr>,
      \<lparr>x1 = Fin 1, y1 = Fin 0, x2 = Fin 1, y2 = Fin 1\<rparr>]"

text \<open>A store whose only segment is out of reach of the origin.\<close>

definition far_store :: "vector list" where
  "far_store = [\<lparr>x1 = Fin 100000, y1 = Fin 0, x2 = Fin 100000, y2 = Fin 1\<rparr>]"

text \<open>
  A store of two segments, the second within reach of the end of the first and
  the first out of reach of the end of the second.
\<close>

definition reach_store :: "vector list" where
  "reach_store =
     [\<lparr>x1 = Fin 10, y1 = Fin 0, x2 = Fin 20, y2 = Fin 0\<rparr>,
      \<lparr>x1 = Fin 25000, y1 = Fin 0, x2 = Fin 50000, y2 = Fin 0\<rparr>]"

text \<open>
  A store of two segments seen from the origin. The A endpoint of the first is
  at the squared distance \<open>9 \<cdot> 10\<^sup>8 + 2\<^sup>-\<^sup>4\<^sup>0\<close>, which rounds to \<open>9 \<cdot> 10\<^sup>8\<close>, the
  squared distance of the A endpoint of the second.
\<close>

definition near_store :: "vector list" where
  "near_store =
     [\<lparr>x1 = Fin 30000, y1 = Fin (1 / 2 ^ 20), x2 = Fin 30000, y2 = Fin 1\<rparr>,
      \<lparr>x1 = Fin 30000, y1 = Fin 0, x2 = Fin 30000, y2 = Fin 2\<rparr>]"

text \<open>
  The transit lengths between consecutive segments of a chain: from the B
  endpoint of one segment to the A endpoint of the next.
\<close>

fun consecutive_transits :: "vector list \<Rightarrow> double list" where
  "consecutive_transits (u # v # vs) =
     sqrt_double ((x2 u - x1 v) * (x2 u - x1 v) + (y2 u - y1 v) * (y2 u - y1 v))
       # consecutive_transits (v # vs)"
| "consecutive_transits vs = []"

text \<open>
  The transit lengths met by a pen that starts at \<open>(lx, ly)\<close> and follows the
  chain: from the pen to the A endpoint of each segment in turn.
\<close>

fun pen_transits :: "double \<Rightarrow> double \<Rightarrow> vector list \<Rightarrow> double list" where
  "pen_transits lx ly [] = []"
| "pen_transits lx ly (v # vs) =
     sqrt_double ((lx - x1 v) * (lx - x1 v) + (ly - y1 v) * (ly - y1 v))
       # pen_transits (x2 v) (y2 v) vs"

text \<open>A chain of one segment that starts away from the origin.\<close>

definition one_cut :: "vector list" where
  "one_cut = [\<lparr>x1 = Fin 3, y1 = Fin 4, x2 = Fin 6, y2 = Fin 8\<rparr>]"

text \<open>
  A chain of one segment that starts at the distance \<open>2\<^sup>-\<^sup>6\<^sup>0\<^sup>0\<close> from the origin: the
  square of the distance underflows to zero.
\<close>

definition tiny_cut :: "vector list" where
  "tiny_cut = [\<lparr>x1 = Fin (1 / 2 ^ 600), y1 = Fin 0, x2 = Fin 1, y2 = Fin 0\<rparr>]"

text \<open>
  A chain without positive transit for a pen that starts at \<open>(cx, cy)\<close>: at each
  segment the transit length passes the test \<^verbatim>\<open>fpeq(transit_len, 0)\<close> of
  \<^verbatim>\<open>vector_refine\<close>.
\<close>

fun no_transit :: "vector list \<Rightarrow> double \<Rightarrow> double \<Rightarrow> bool" where
  "no_transit [] cx cy = True"
| "no_transit (v # vs) cx cy =
     (fpeq (sqrt_double ((cx - x1 v) * (cx - x1 v) + (cy - y1 v) * (cy - y1 v))) 0
      \<and> no_transit vs (x2 v) (y2 v))"

text \<open>
  A chain in which the A endpoint of each segment coincides with the position
  of the pen, which starts at \<open>(cx, cy)\<close>, within the tolerance on each
  coordinate: the test \<^verbatim>\<open>fpeq(v->x1, lx) && fpeq(v->y1, ly)\<close> of \<^verbatim>\<open>output_vector\<close>.
\<close>

fun coincident :: "vector list \<Rightarrow> double \<Rightarrow> double \<Rightarrow> bool" where
  "coincident [] cx cy = True"
| "coincident (v # vs) cx cy =
     (fpeq (x1 v) cx \<and> fpeq (y1 v) cy \<and> coincident vs (x2 v) (y2 v))"

text \<open>
  A chain of three segments. The second and the third start at an offset of
  \<open>(27 / 2\<^sup>3\<^sup>2, 36 / 2\<^sup>3\<^sup>2)\<close> from the position of the pen: each coordinate is off by
  less than \<open>10\<^sup>-\<^sup>8\<close>, the distance is \<open>45 / 2\<^sup>3\<^sup>2\<close>, which is more.
\<close>

definition offset_chain :: "vector list" where
  "offset_chain =
     [\<lparr>x1 = Fin 0, y1 = Fin 0, x2 = Fin 1, y2 = Fin 0\<rparr>,
      \<lparr>x1 = Fin (1 + 27 / 2 ^ 32), y1 = Fin (36 / 2 ^ 32), x2 = Fin 2, y2 = Fin 0\<rparr>,
      \<lparr>x1 = Fin (2 + 27 / 2 ^ 32), y1 = Fin (36 / 2 ^ 32), x2 = Fin 2, y2 = Fin 0\<rparr>]"

text \<open>
  The squared distance compared by the second loop of \<^verbatim>\<open>vector_refine\<close>: from the
  B endpoint of a node to the A endpoint of the node \<open>tv\<close>.
\<close>

definition sqdist_to :: "vector \<Rightarrow> vector \<Rightarrow> double" where
  "sqdist_to tv v = (x2 v - x1 tv) * (x2 v - x1 tv) + (y2 v - y1 tv) * (y2 v - y1 tv)"

text \<open>The same for the nodes at index \<open>j\<close> and \<open>t\<close> of a chain.\<close>

definition prior_dist :: "vector list \<Rightarrow> nat \<Rightarrow> nat \<Rightarrow> double" where
  "prior_dist vector t j = sqdist_to (vector ! t) (vector ! j)"

text \<open>
  A continuous chain of two segments followed by a third whose A endpoint is
  equally far from the B endpoints of both.
\<close>

definition tie_chain :: "vector list" where
  "tie_chain =
     [\<lparr>x1 = Fin 0, y1 = Fin 0, x2 = Fin 1, y2 = Fin 0\<rparr>,
      \<lparr>x1 = Fin 1, y1 = Fin 0, x2 = Fin 0, y2 = Fin 1\<rparr>,
      \<lparr>x1 = Fin 1, y1 = Fin 1, x2 = Fin 2, y2 = Fin 2\<rparr>]"

text \<open>
  A chain of three segments whose third segment starts at the origin: the B
  endpoints of the first and of the second are at the squared distances
  \<open>9 \<cdot> 10\<^sup>8\<close> and \<open>9 \<cdot> 10\<^sup>8 + 2\<^sup>-\<^sup>4\<^sup>0\<close>, which is rounded to \<open>9 \<cdot> 10\<^sup>8\<close>.
\<close>

definition round_chain :: "vector list" where
  "round_chain =
     [\<lparr>x1 = Fin 0, y1 = Fin 0, x2 = Fin 30000, y2 = Fin 0\<rparr>,
      \<lparr>x1 = Fin 30000, y1 = Fin 0, x2 = Fin 30000, y2 = Fin (1 / 2 ^ 20)\<rparr>,
      \<lparr>x1 = Fin 0, y1 = Fin 0, x2 = Fin 7, y2 = Fin 7\<rparr>]"

text \<open>A continuous chain: each segment starts where the pen is.\<close>

definition continuous_chain :: "vector list" where
  "continuous_chain =
     [\<lparr>x1 = Fin 0, y1 = Fin 0, x2 = Fin 1, y2 = Fin 0\<rparr>, \<lparr>x1 = Fin 1, y1 = Fin 0, x2 = Fin 1, y2 = Fin 1\<rparr>]"

text \<open>
  A chain of four segments whose third segment has the longest transit and is
  closest to the end of the first.
\<close>

definition detour_chain :: "vector list" where
  "detour_chain =
     [\<lparr>x1 = Fin 0, y1 = Fin 0, x2 = Fin 1, y2 = Fin 0\<rparr>,
      \<lparr>x1 = Fin 5, y1 = Fin 0, x2 = Fin 6, y2 = Fin 0\<rparr>,
      \<lparr>x1 = Fin 3, y1 = Fin 4, x2 = Fin 6, y2 = Fin 4\<rparr>,
      \<lparr>x1 = Fin 6, y1 = Fin 1, x2 = Fin 6, y2 = Fin 2\<rparr>]"

text \<open>The segment carried by the node at an address.\<close>

definition vec :: "heap \<Rightarrow> addr \<Rightarrow> vector" where
  "vec h a = vector.truncate (nodes h a)"

text \<open>
  The addresses met when following \<^verbatim>\<open>next\<close> from a node pointer down to \<^verbatim>\<open>NULL\<close>.
\<close>

fun path :: "heap \<Rightarrow> addr option \<Rightarrow> addr list \<Rightarrow> bool" where
  "path h p [] = (p = None)"
| "path h p (a # as) = (p = Some a \<and> path h (nextp (nodes h a)) as)"

text \<open>
  A doubly linked list hanging at the place \<open>r\<close>: \<open>r\<close> holds the first node,
  each node holds the next, the last holds \<^verbatim>\<open>NULL\<close>, and the field \<^verbatim>\<open>prev\<close> of each
  node points back to the place that holds it. \<open>seg\<close> is the same without the
  final \<^verbatim>\<open>NULL\<close>.
\<close>

fun dll :: "heap \<Rightarrow> ref \<Rightarrow> addr list \<Rightarrow> bool" where
  "dll h r [] = (load h r = None)"
| "dll h r (a # as) =
     (load h r = Some a \<and> prevp (nodes h a) = Some r \<and> dll h (NextOf a) as)"

fun seg :: "heap \<Rightarrow> ref \<Rightarrow> addr list \<Rightarrow> bool" where
  "seg h r [] = True"
| "seg h r (a # as) =
     (load h r = Some a \<and> prevp (nodes h a) = Some r \<and> seg h (NextOf a) as)"

text \<open>
  A well-formed list: no node occurs twice, and the place \<open>r\<close> is not a field of
  one of the nodes. Every list built by \<^verbatim>\<open>vector_create\<close> from an empty store is
  of this kind.
\<close>

definition wf_list :: "heap \<Rightarrow> ref \<Rightarrow> addr list \<Rightarrow> bool" where
  "wf_list h r as = (dll h r as \<and> distinct as \<and> r \<notin> NextOf ` set as)"

text \<open>The place that holds what follows the nodes \<open>as\<close> of a list hanging at \<open>r\<close>.\<close>

definition last_ref :: "ref \<Rightarrow> addr list \<Rightarrow> ref" where
  "last_ref r as = (if as = [] then r else NextOf (last as))"

text \<open>
  What a run on the nodes \<open>N\<close> of a list hanging at \<open>r\<close> leaves alone: every place
  other than \<open>r\<close> and the \<^verbatim>\<open>next\<close> fields of \<open>N\<close>, and the \<^verbatim>\<open>prev\<close> field and the
  segment of every node outside \<open>N\<close>.
\<close>

definition frame :: "heap \<Rightarrow> heap \<Rightarrow> ref \<Rightarrow> addr set \<Rightarrow> bool" where
  "frame h h' r N =
     ((\<forall>s. s \<noteq> r \<and> s \<notin> NextOf ` N \<longrightarrow> load h' s = load h s)
      \<and> (\<forall>x. x \<notin> N \<longrightarrow> prevp (nodes h' x) = prevp (nodes h x) \<and> vec h' x = vec h x))"

text \<open>
  The invariant of the loop of \<^verbatim>\<open>vector_optimize\<close>: the store still holds the
  nodes \<open>as\<close>, and the nodes \<open>cs\<close> placed so far form the chain from \<^verbatim>\<open>vs\<close> to
  \<^verbatim>\<open>vs_tail\<close>.
\<close>

definition opt_inv ::
    "heap \<Rightarrow> ref \<Rightarrow> addr list \<Rightarrow> addr list \<Rightarrow> (addr \<times> addr) option \<Rightarrow> bool" where
  "opt_inv h r as cs chain =
     (wf_list h r as \<and> distinct cs \<and> set cs \<inter> set as = {} \<and> r \<notin> NextOf ` set cs
      \<and> (case cs of [] \<Rightarrow> chain = None
          | c # cs' \<Rightarrow> chain = Some (c, last cs) \<and> dll h (NextOf c) cs'))"

text \<open>One round of that loop after the search: the memory and the chain pointers.\<close>

definition place :: "heap \<Rightarrow> (addr \<times> addr) option \<Rightarrow> addr \<Rightarrow> heap" where
  "place h1 chain v = (case chain of None \<Rightarrow> h1 | Some (vs, vs_tail) \<Rightarrow> append_node h1 vs_tail v)"

definition placed :: "(addr \<times> addr) option \<Rightarrow> addr \<Rightarrow> (addr \<times> addr) option" where
  "placed chain v = (case chain of None \<Rightarrow> Some (v, v) | Some (vs, vs_tail) \<Rightarrow> Some (vs, v))"

text \<open>
  A memory in which the store of pass 0 holds the segments \<open>vs\<close>, in this order, in
  nodes at the addresses \<open>0, 1, 2, \<dots>\<close>
\<close>

definition list_heap :: "vector list \<Rightarrow> heap" where
  "list_heap vs =
     \<lparr>heads = (\<lambda>k. if k = 0 \<and> vs \<noteq> [] then Some 0 else None),
      nodes = (\<lambda>a. if a < length vs
                   then \<lparr>x1 = x1 (vs ! a), y1 = y1 (vs ! a), x2 = x2 (vs ! a), y2 = y2 (vs ! a),
                         nextp = (if Suc a < length vs then Some (Suc a) else None),
                         prevp = Some (if a = 0 then Head 0 else NextOf (a - 1))\<rparr>
                   else \<lparr>x1 = Fin 0, y1 = Fin 0, x2 = Fin 0, y2 = Fin 0, nextp = None, prevp = None\<rparr>)\<rparr>"

section \<open>Floating-point arithmetic\<close>

lemma expo_eq:
  assumes "2 powr of_int e \<le> \<bar>x\<bar>" and "\<bar>x\<bar> < 2 powr of_int (e + 1)"
  shows "expo x = e"
proof -
  from assms(1) have p: "0 < \<bar>x\<bar>" by (smt (verit) powr_gt_zero)
  from assms(1) p have "of_int e \<le> log 2 \<bar>x\<bar>" by (simp add: le_log_iff)
  moreover from assms(2) p have "log 2 \<bar>x\<bar> < of_int (e + 1)" by (simp add: log_less_iff)
  ultimately show ?thesis unfolding expo_def by (simp add: floor_eq_iff)
qed

lemma expo_bounds:
  assumes "x \<noteq> 0"
  shows "2 powr of_int (expo x) \<le> \<bar>x\<bar>" and "\<bar>x\<bar> < 2 powr of_int (expo x + 1)"
proof -
  from assms have p: "0 < \<bar>x\<bar>" by simp
  have "of_int (expo x) \<le> log 2 \<bar>x\<bar>" unfolding expo_def by simp
  with p show "2 powr of_int (expo x) \<le> \<bar>x\<bar>" by (simp add: le_log_iff)
  have "log 2 \<bar>x\<bar> < of_int (expo x + 1)" unfolding expo_def by simp
  with p show "\<bar>x\<bar> < 2 powr of_int (expo x + 1)" by (simp add: log_less_iff)
qed


lemma nearest_even_of_int [simp]: "nearest_even (of_int n) = n"
  by (simp add: nearest_even_def)


lemma expo_minus [simp]: "expo (- x) = expo x"
  by (simp add: expo_def)

lemma ulp_minus [simp]: "ulp (- x) = ulp x"
  by (simp add: ulp_def)

lemma ulp_pos [simp]: "0 < ulp x"
  by (simp add: ulp_def)


lemma round_double_0 [simp]: "round_double 0 = Fin 0"
  by (simp add: round_double_def)

lemma round_double_exact:
  assumes x: "x = of_int m * 2 powr of_int e" and m: "\<bar>m\<bar> < 2 ^ 53"
    and e: "- 1074 \<le> e" and b: "\<bar>x\<bar> < 2 ^ 1024"
  shows "round_double x = Fin x"
proof (cases "x = 0")
  case True
  then show ?thesis by simp
next
  case False
  define u where "u = max (expo x - 52) (- 1074)"
  have "\<bar>x\<bar> = of_int \<bar>m\<bar> * 2 powr of_int e" unfolding x by (simp add: abs_mult)
  also have "\<dots> < 2 ^ 53 * 2 powr of_int e"
  proof -
    from m have "(of_int \<bar>m\<bar> :: real) < of_int (2 ^ 53)" by (simp only: of_int_less_iff)
    then show ?thesis by simp
  qed
  also have "\<dots> = 2 powr of_int (e + 53)"
    by (simp add: powr_add powr_realpow [symmetric])
  finally have "\<bar>x\<bar> < 2 powr of_int (e + 53)" .
  with expo_bounds(1) [OF False] have "2 powr of_int (expo x) < (2::real) powr of_int (e + 53)"
    by linarith
  then have "expo x < e + 53" by simp
  with e have ue: "u \<le> e" by (simp add: u_def)
  then obtain d where d: "e = u + int d" by (auto simp: zle_iff_zadd)
  have "x / 2 powr of_int u = of_int m * (2 powr of_int e / 2 powr of_int u)"
    unfolding x by simp
  also have "2 powr of_int e / 2 powr of_int u = (2::real) ^ d"
    unfolding d by (simp add: powr_add powr_realpow)
  also have "of_int m * (2::real) ^ d = of_int (m * 2 ^ d)" by simp
  finally have q: "x / ulp x = of_int (m * 2 ^ d)" unfolding ulp_def u_def .
  then have r: "of_int (nearest_even (x / ulp x)) * ulp x = x"
    by (metis nearest_even_of_int nonzero_divide_eq_eq ulp_pos less_irrefl)
  show ?thesis
    unfolding round_double_def Let_def r using False b by simp
qed

lemma round_double_dyadic:
  assumes "\<bar>m\<bar> < 2 ^ 53" and "k \<le> 1074"
  shows "round_double (of_int m / 2 ^ k) = Fin (of_int m / 2 ^ k)"
proof (rule round_double_exact [OF _ assms(1)])
  show "of_int m / 2 ^ k = of_int m * (2::real) powr of_int (- int k)"
    by (simp add: powr_minus powr_realpow field_simps)
  show "- 1074 \<le> - int k" using assms(2) by simp
  have "(1::real) \<le> 2 ^ k" by simp
  then have "\<bar>of_int m\<bar> * 1 \<le> \<bar>of_int m\<bar> * (2::real) ^ k"
    by (intro mult_left_mono) simp_all
  then have "\<bar>of_int m / (2::real) ^ k\<bar> \<le> \<bar>of_int m\<bar>"
    by (simp add: abs_divide divide_le_eq)
  also have "\<dots> < 2 ^ 53" using assms(1)
    by (metis of_int_abs of_int_less_iff of_int_numeral of_int_power)
  also have "(2::real) ^ 53 < 2 ^ 1024" by simp
  finally show "\<bar>of_int m / (2::real) ^ k\<bar> < 2 ^ 1024" .
qed

lemma round_double_of_int:
  assumes "\<bar>n\<bar> < 2 ^ 53"
  shows "round_double (of_int n) = Fin (of_int n)"
  using round_double_dyadic [OF assms, of 0] by simp


lemma round_double_numeral:
  "numeral k < (9007199254740992::int) \<Longrightarrow> round_double (numeral k) = Fin (numeral k)"
  using round_double_of_int [of "numeral k"] by simp

lemma round_double_neg_numeral:
  "numeral k < (9007199254740992::int) \<Longrightarrow> round_double (- numeral k) = Fin (- numeral k)"
  using round_double_of_int [of "- numeral k"] by simp

lemma round_double_1: "round_double 1 = Fin 1"
  using round_double_of_int [of 1] by simp

lemma round_double_neg_1: "round_double (- 1) = Fin (- 1)"
  using round_double_of_int [of "- 1"] by simp

lemmas double_simps =
  zero_double_def minus_double_def round_double_0 round_double_1 round_double_neg_1
  round_double_numeral round_double_neg_numeral

lemma eps_val: "round_double (1 / 10 ^ 8) = Fin (6044629098073146 / 2 ^ 79)"
proof -
  let ?x = "1 / 10 ^ 8 :: real"
  have "expo ?x = - 27"
    by (rule expo_eq) (simp_all add: powr_minus powr_realpow [symmetric] flip: powr_numeral)
  then have u: "ulp ?x = 1 / 2 ^ 79"
    by (simp add: ulp_def powr_minus divide_simps flip: powr_numeral)
  have n: "nearest_even (?x / (1 / 2 ^ 79)) = 6044629098073146"
    by (simp add: nearest_even_def Let_def)
  show ?thesis
    unfolding round_double_def Let_def u n by simp
qed

lemma eps_num: "round_double (1 / 100000000) = Fin (6044629098073146 / 2 ^ 79)"
  using eps_val by simp

text \<open>
  Two examples of rounding. The sum of the values of the format nearest to
  \<open>0.1\<close> and \<open>0.2\<close> lies half way between two values, and the one with the even
  significand is taken. The two values below differ by less than \<open>10\<^sup>-\<^sup>8\<close>, but
  their difference is rounded up to the value of \<^verbatim>\<open>1e-8\<close>, so that \<^verbatim>\<open>fpeq\<close> fails.
\<close>

lemma tenth_plus_fifth:
  "Fin (3602879701896397 / 2 ^ 55) + Fin (3602879701896397 / 2 ^ 54)
     = Fin (5404319552844596 / 2 ^ 54)"
proof -
  let ?x = "3602879701896397 / 2 ^ 55 + 3602879701896397 / 2 ^ 54 :: real"
  have "expo ?x = - 2"
    by (rule expo_eq) (simp_all add: powr_minus powr_realpow [symmetric] flip: powr_numeral)
  then have u: "ulp ?x = 1 / 2 ^ 54"
    by (simp add: ulp_def powr_minus divide_simps flip: powr_numeral)
  have n: "nearest_even (?x / (1 / 2 ^ 54)) = 5404319552844596"
    by (simp add: nearest_even_def Let_def)
  show ?thesis
    unfolding plus_double.simps round_double_def Let_def u n by simp
qed

lemma fpeq_boundary:
  "\<not> fpeq (Fin (6044629098073145 / 2 ^ 79)) (Fin (- (1025 / 2 ^ 90)))"
proof -
  let ?x = "6044629098073145 / 2 ^ 79 + 1025 / 2 ^ 90 :: real"
  have "expo ?x = - 27"
    by (rule expo_eq) (simp_all add: powr_minus powr_realpow [symmetric] flip: powr_numeral)
  then have u: "ulp ?x = 1 / 2 ^ 79"
    by (simp add: ulp_def powr_minus divide_simps flip: powr_numeral)
  have n: "nearest_even (?x / (1 / 2 ^ 79)) = 6044629098073146"
    by (simp add: nearest_even_def Let_def)
  have "round_double ?x = Fin (6044629098073146 / 2 ^ 79)"
    unfolding round_double_def Let_def u n by simp
  then have "Fin (6044629098073145 / 2 ^ 79) - Fin (- (1025 / 2 ^ 90))
               = Fin (6044629098073146 / 2 ^ 79)"
    by (simp add: minus_double_def)
  then show ?thesis
    unfolding fpeq_def Let_def eps_val by simp
qed

lemma less_double_irrefl [simp]: "\<not> a < (a::double)"
  by (cases a) simp_all

lemma less_double_trans: "a < b \<Longrightarrow> b < c \<Longrightarrow> a < (c::double)"
  by (cases a; cases b; cases c) simp_all

lemma less_double_asym: "a < b \<Longrightarrow> \<not> b < (a::double)"
  by (cases a; cases b) simp_all

lemma not_less_double_trans: "\<not> a < b \<Longrightarrow> c < b \<Longrightarrow> \<not> a < (c::double)"
  by (cases a; cases b; cases c) simp_all

lemma le_less_double_trans: "a \<le> b \<Longrightarrow> b < c \<Longrightarrow> a < (c::double)"
  by (cases a; cases b; cases c) (auto simp: less_eq_double_def)

lemma less_le_double_trans: "a < b \<Longrightarrow> b \<le> c \<Longrightarrow> a < (c::double)"
  by (cases a; cases b; cases c) (auto simp: less_eq_double_def)

lemma less_double_not_NaN: "a < b \<Longrightarrow> a \<noteq> NaN \<and> b \<noteq> NaN"
  by (cases a; cases b) simp_all

lemma not_less_double: "a \<noteq> NaN \<Longrightarrow> b \<noteq> NaN \<Longrightarrow> (\<not> a < b) = (b \<le> (a::double))"
  by (cases a; cases b) (auto simp: less_eq_double_def)

lemma not_le_double: "a \<noteq> NaN \<Longrightarrow> b \<noteq> NaN \<Longrightarrow> (\<not> a \<le> b) = (b < (a::double))"
  by (cases a; cases b) (auto simp: less_eq_double_def)

lemma abs_uminus_double [simp]: "\<bar>- a\<bar> = \<bar>a::double\<bar>"
  by (cases a) simp_all

lemma uminus_uminus_double [simp]: "- (- a) = (a::double)"
  by (cases a) simp_all



lemma fpeq_refl: "isfinite x \<Longrightarrow> fpeq x x"
  by (cases x) (simp_all add: fpeq_def eps_num minus_double_def)


lemma fpeq_isfinite: "fpeq x y \<Longrightarrow> isfinite x \<and> isfinite y"
  by (cases x; cases y) (simp_all add: fpeq_def eps_num minus_double_def)

lemma round_double_underflow:
  assumes "\<bar>x\<bar> < 2 powr - 1075"
  shows "round_double x = Fin 0"
proof (cases "x = 0")
  case True
  then show ?thesis by simp
next
  case False
  from expo_bounds(1) [OF False] assms
  have "2 powr of_int (expo x) < (2::real) powr - 1075" by linarith
  then have "real_of_int (expo x) < - 1075" by simp
  then have "expo x < - 1075" by linarith
  then have u: "ulp x = 2 powr - 1074" by (simp add: ulp_def max_def)
  define y where "y = x / ulp x"
  have "\<bar>y\<bar> = \<bar>x\<bar> / 2 powr - 1074"
    unfolding y_def u by (simp add: abs_divide)
  also have "\<dots> < 2 powr - 1075 / 2 powr - 1074"
    using assms by (simp add: divide_strict_right_mono)
  also have "\<dots> = (1 / 2 :: real)"
    by (simp add: powr_diff [symmetric])
  finally have y: "\<bar>y\<bar> < 1 / 2" .
  have "nearest_even y = 0"
  proof (cases "0 \<le> y")
    case True
    with y have "\<lfloor>y\<rfloor> = 0" by (intro floor_unique) auto
    with y True show ?thesis by (simp add: nearest_even_def)
  next
    case False
    with y have "\<lfloor>y\<rfloor> = - 1" by (intro floor_unique) auto
    with y False show ?thesis by (simp add: nearest_even_def)
  qed
  then have "nearest_even (x / ulp x) = 0" by (simp only: y_def)
  then show ?thesis using False by (simp add: round_double_def)
qed

lemma le_double_trans: "a \<le> b \<Longrightarrow> b \<le> c \<Longrightarrow> a \<le> (c::double)"
  by (cases a; cases b; cases c) (auto simp: less_eq_double_def)

lemma lit_1e9: "round_double 1000000000 = Fin 1000000000"
  by (simp add: round_double_numeral)

lemma sqrt_9: "sqrt 9 = 3"
  by (rule real_sqrt_unique) simp_all

lemma sqrt_16: "sqrt 16 = 4"
  by (rule real_sqrt_unique) simp_all

lemma sqrt_25: "sqrt 25 = 5"
  by (rule real_sqrt_unique) simp_all

section \<open>Insertion: duplicates and degenerate segments\<close>



lemma vector_create_degenerate_nonempty:
  "vectors \<noteq> [] \<Longrightarrow> isfinite ax \<Longrightarrow> isfinite ay
   \<Longrightarrow> vector_create_list ok vectors ax ay ax ay = vectors"
  by (cases vectors) (simp_all add: vector_create_list_def fpeq_refl)

section \<open>The search loop\<close>

lemma find_closest_loop_Cons:
  "find_closest_loop_list (v # vs) i cx cy bd best rv =
     (if sqdist_A cx cy v < bd
      then (if sqdist_B cx cy v < sqdist_A cx cy v
            then find_closest_loop_list vs (Suc i) cx cy (sqdist_B cx cy v) (Some i) True
            else find_closest_loop_list vs (Suc i) cx cy (sqdist_A cx cy v) (Some i) False)
      else (if sqdist_B cx cy v < bd
            then find_closest_loop_list vs (Suc i) cx cy (sqdist_B cx cy v) (Some i) True
            else find_closest_loop_list vs (Suc i) cx cy bd best rv))"
  by (simp add: sqdist_A_def sqdist_B_def Let_def)

lemma find_closest_loop_step:
  "find_closest_loop_list (v # vs) i cx cy bd best rv =
     find_closest_loop_list vs (Suc i) cx cy
       (if sqdist_A cx cy v < bd
        then (if sqdist_B cx cy v < sqdist_A cx cy v then sqdist_B cx cy v else sqdist_A cx cy v)
        else (if sqdist_B cx cy v < bd then sqdist_B cx cy v else bd))
       (if sqdist_A cx cy v < bd \<or> sqdist_B cx cy v < bd then Some i else best)
       (if sqdist_A cx cy v < bd then sqdist_B cx cy v < sqdist_A cx cy v
        else if sqdist_B cx cy v < bd then True else rv)"
  unfolding find_closest_loop_Cons by auto

lemma find_closest_loop_lower:
  "find_closest_loop_list vs i cx cy bd best rv = (bd', best', rv')
   \<Longrightarrow> (bd' = bd \<or> bd' < bd)
       \<and> (\<forall>v\<in>set vs. \<not> sqdist_A cx cy v < bd' \<and> \<not> sqdist_B cx cy v < bd')"
proof (induction vs arbitrary: i bd best rv)
  case Nil
  then show ?case by simp
next
  case (Cons v vs)
  let ?a = "sqdist_A cx cy v" and ?b = "sqdist_B cx cy v"
  define bd2 where "bd2 = (if ?a < bd then (if ?b < ?a then ?b else ?a)
                           else (if ?b < bd then ?b else bd))"
  from Cons.prems obtain best2 rv2
    where r: "find_closest_loop_list vs (Suc i) cx cy bd2 best2 rv2 = (bd', best', rv')"
    unfolding find_closest_loop_step bd2_def by blast
  have k1: "bd2 = bd \<or> bd2 < bd"
    by (auto simp: bd2_def dest: less_double_trans)
  have k2: "\<not> ?a < bd2"
    by (auto simp: bd2_def dest: less_double_asym not_less_double_trans)
  have k3: "\<not> ?b < bd2"
    by (auto simp: bd2_def)
  from Cons.IH [OF r] have i1: "bd' = bd2 \<or> bd' < bd2"
    and i2: "\<forall>u\<in>set vs. \<not> sqdist_A cx cy u < bd' \<and> \<not> sqdist_B cx cy u < bd'"
    by simp_all
  from i1 k1 have "bd' = bd \<or> bd' < bd" by (auto dest: less_double_trans)
  moreover from i1 k2 have "\<not> ?a < bd'" by (auto dest: not_less_double_trans)
  moreover from i1 k3 have "\<not> ?b < bd'" by (auto dest: not_less_double_trans)
  ultimately show ?case using i2 by simp
qed

lemma less_double_or_NaN: "\<not> a < c \<Longrightarrow> b < c \<Longrightarrow> b < a \<or> a = NaN"
  by (cases a; cases b; cases c) auto

lemma find_closest_loop_pick:
  "find_closest_loop_list vs i cx cy bd best rv = (bd', best', rv')
   \<Longrightarrow> (\<forall>v\<in>set vs. \<not> sqdist_A cx cy v < bd \<and> \<not> sqdist_B cx cy v < bd)
          \<and> bd' = bd \<and> best' = best \<and> rv' = rv
       \<or> (\<exists>pre w post. vs = pre @ w # post \<and> best' = Some (i + length pre)
            \<and> bd' < bd
            \<and> rv' = (sqdist_B cx cy w < sqdist_A cx cy w \<or> sqdist_A cx cy w = NaN)
            \<and> bd' = (if rv' then sqdist_B cx cy w else sqdist_A cx cy w)
            \<and> (\<forall>u\<in>set pre. \<not> sqdist_A cx cy u \<le> bd' \<and> \<not> sqdist_B cx cy u \<le> bd'))"
proof (induction vs arbitrary: i bd best rv)
  case Nil
  then show ?case by simp
next
  case (Cons v vs)
  let ?a = "sqdist_A cx cy v" and ?b = "sqdist_B cx cy v"
  define bd2 where "bd2 = (if ?a < bd then (if ?b < ?a then ?b else ?a)
                           else (if ?b < bd then ?b else bd))"
  define best2 where "best2 = (if ?a < bd \<or> ?b < bd then Some i else best)"
  define rv2 where "rv2 = (if ?a < bd then ?b < ?a else if ?b < bd then True else rv)"
  from Cons.prems
  have r: "find_closest_loop_list vs (Suc i) cx cy bd2 best2 rv2 = (bd', best', rv')"
    unfolding find_closest_loop_step bd2_def best2_def rv2_def by simp
  have k1: "bd2 = bd \<or> bd2 < bd"
    by (auto simp: bd2_def dest: less_double_trans)
  have k2: "\<not> ?a < bd2"
    by (auto simp: bd2_def dest: less_double_asym not_less_double_trans)
  have k3: "\<not> ?b < bd2"
    by (auto simp: bd2_def)
  from Cons.IH [OF r] show ?case
  proof (elim disjE exE conjE)
    assume k: "\<forall>u\<in>set vs. \<not> sqdist_A cx cy u < bd2 \<and> \<not> sqdist_B cx cy u < bd2"
      and e: "bd' = bd2" "best' = best2" "rv' = rv2"
    show ?thesis
    proof (cases "?a < bd \<or> ?b < bd")
      case True
      then have 1: "bd2 < bd" by (auto simp: bd2_def dest: less_double_trans)
      from True have 2: "rv2 = (?b < ?a \<or> ?a = NaN)"
        by (auto simp: rv2_def dest: less_double_or_NaN less_double_not_NaN)
      from True have 3: "bd2 = (if rv2 then ?b else ?a)"
        by (auto simp: bd2_def rv2_def)
      from True have 4: "best2 = Some i" by (simp add: best2_def)
      have "v # vs = [] @ v # vs \<and> best' = Some (i + length ([]::vector list))
          \<and> bd' < bd \<and> rv' = (?b < ?a \<or> ?a = NaN) \<and> bd' = (if rv' then ?b else ?a)
          \<and> (\<forall>u\<in>set ([]::vector list). \<not> sqdist_A cx cy u \<le> bd' \<and> \<not> sqdist_B cx cy u \<le> bd')"
        unfolding e using 1 2 3 4 by simp
      then show ?thesis by blast
    next
      case False
      then have "bd2 = bd" "best2 = best" "rv2 = rv"
        by (auto simp: bd2_def best2_def rv2_def)
      with k e False show ?thesis by auto
    qed
  next
    fix pre w post
    assume a: "vs = pre @ w # post" "best' = Some (Suc i + length pre)" "bd' < bd2"
      "rv' = (sqdist_B cx cy w < sqdist_A cx cy w \<or> sqdist_A cx cy w = NaN)"
      "bd' = (if rv' then sqdist_B cx cy w else sqdist_A cx cy w)"
      "\<forall>u\<in>set pre. \<not> sqdist_A cx cy u \<le> bd' \<and> \<not> sqdist_B cx cy u \<le> bd'"
    from a(3) k1 have 1: "bd' < bd" by (auto dest: less_double_trans)
    from a(3) k2 have 2: "\<not> ?a \<le> bd'" by (auto dest: le_less_double_trans)
    from a(3) k3 have 3: "\<not> ?b \<le> bd'" by (auto dest: le_less_double_trans)
    have "v # vs = (v # pre) @ w # post \<and> best' = Some (i + length (v # pre))
          \<and> bd' < bd
          \<and> rv' = (sqdist_B cx cy w < sqdist_A cx cy w \<or> sqdist_A cx cy w = NaN)
          \<and> bd' = (if rv' then sqdist_B cx cy w else sqdist_A cx cy w)
          \<and> (\<forall>u\<in>set (v # pre). \<not> sqdist_A cx cy u \<le> bd' \<and> \<not> sqdist_B cx cy u \<le> bd')"
      using a(1,2,4,5,6) 1 2 3 by simp
    then show ?thesis by blast
  qed
qed

lemma sqdist_flip [simp]:
  "sqdist_A cx cy (flip w) = sqdist_B cx cy w" "sqdist_B cx cy (flip w) = sqdist_A cx cy w"
  by (simp_all add: sqdist_A_def sqdist_B_def flip_def)

lemma endpoint_pair_flip [simp]: "endpoint_pair (flip w) = endpoint_pair w"
  by (auto simp: endpoint_pair_def flip_def)

lemma unlink_middle: "unlink (length pre) (pre @ w # post) = pre @ post"
  by (simp add: unlink_def)

lemma vector_find_closest_Some:
  assumes "vector_find_closest_list vs cx cy = Some (b, rest)"
  shows "\<exists>pre w post. vs = pre @ w # post \<and> rest = pre @ post
           \<and> b = (if sqdist_B cx cy w < sqdist_A cx cy w \<or> sqdist_A cx cy w = NaN
                  then flip w else w)
           \<and> sqdist_A cx cy b < round_double 1000000000
           \<and> (\<forall>u\<in>set pre. \<not> sqdist_A cx cy u \<le> sqdist_A cx cy b
                           \<and> \<not> sqdist_B cx cy u \<le> sqdist_A cx cy b)
           \<and> (\<forall>u\<in>set vs. \<not> sqdist_A cx cy u < sqdist_A cx cy b
                          \<and> \<not> sqdist_B cx cy u < sqdist_A cx cy b)"
proof -
  from assms obtain bd k rv
    where l: "find_closest_loop_list vs 0 cx cy (round_double 1000000000) None False
                = (bd, Some k, rv)"
      and b: "b = (if rv then flip (vs ! k) else vs ! k)" and r: "rest = unlink k vs"
    by (auto simp: vector_find_closest_list_def split: prod.splits option.splits)
  from find_closest_loop_pick [OF l] obtain pre w post
    where d: "vs = pre @ w # post" "k = length pre" "bd < round_double 1000000000"
      "rv = (sqdist_B cx cy w < sqdist_A cx cy w \<or> sqdist_A cx cy w = NaN)"
      "bd = (if rv then sqdist_B cx cy w else sqdist_A cx cy w)"
      "\<forall>u\<in>set pre. \<not> sqdist_A cx cy u \<le> bd \<and> \<not> sqdist_B cx cy u \<le> bd"
    by auto
  from find_closest_loop_lower [OF l]
  have low: "\<forall>u\<in>set vs. \<not> sqdist_A cx cy u < bd \<and> \<not> sqdist_B cx cy u < bd" by simp
  from d(1,2,4) b
  have b': "b = (if sqdist_B cx cy w < sqdist_A cx cy w \<or> sqdist_A cx cy w = NaN
                 then flip w else w)"
    by simp
  have bd: "sqdist_A cx cy b = bd" unfolding b' d(5) d(4) by simp
  from r d have r': "rest = pre @ post" by (simp add: unlink_middle)
  from d(1) r' b' d(3) d(6) low show ?thesis unfolding bd by blast
qed

lemma vector_find_closest_None:
  "(vector_find_closest_list vs cx cy = None) = (\<forall>v\<in>set vs. \<not> in_radius cx cy v)"
proof -
  obtain bd best rv
    where l: "find_closest_loop_list vs 0 cx cy (round_double 1000000000) None False
                = (bd, best, rv)"
    by (cases "find_closest_loop_list vs 0 cx cy (round_double 1000000000) None False") auto
  have n: "(vector_find_closest_list vs cx cy = None) = (best = None)"
    using l by (auto simp: vector_find_closest_list_def split: option.splits)
  show ?thesis
  proof (cases best)
    case None
    with find_closest_loop_pick [OF l] show ?thesis
      unfolding n in_radius_def by auto
  next
    case (Some k)
    with find_closest_loop_pick [OF l] obtain pre w post
      where "vs = pre @ w # post" "bd < round_double 1000000000"
        "bd = sqdist_B cx cy w \<or> bd = sqdist_A cx cy w"
      by (auto split: if_splits)
    then have "w \<in> set vs" "in_radius cx cy w" by (auto simp: in_radius_def)
    with Some show ?thesis unfolding n by auto
  qed
qed

section \<open>The sequencing loop\<close>

lemma optimize_loop_result:
  "optimize_loop_list vectors vs cx cy = Inr (chain, ex, ey)
   \<Longrightarrow> \<exists>placed. chain = vs @ placed \<and> length placed = length vectors
         \<and> image_mset endpoint_pair (mset placed) = image_mset endpoint_pair (mset vectors)
         \<and> (ex, ey) = (if placed = [] then (cx, cy) else (x2 (last placed), y2 (last placed)))"
proof (induction vectors vs cx cy rule: optimize_loop_list.induct)
  case (1 vectors vs cx cy)
  show ?case
  proof (cases "vectors = []")
    case True
    with "1.prems" show ?thesis by (simp add: optimize_loop_list.simps)
  next
    case False
    with "1.prems" obtain v rest where f: "vector_find_closest_list vectors cx cy = Some (v, rest)"
      and r: "optimize_loop_list rest (vs @ [v]) (x2 v) (y2 v) = Inr (chain, ex, ey)"
      by (auto simp: optimize_loop_list.simps [of vectors] split: option.splits)
    from "1.IH" [OF False f refl r] obtain placed
      where p: "chain = (vs @ [v]) @ placed" "length placed = length rest"
        "image_mset endpoint_pair (mset placed) = image_mset endpoint_pair (mset rest)"
        "(ex, ey) = (if placed = [] then (x2 v, y2 v) else (x2 (last placed), y2 (last placed)))"
      by blast
    from vector_find_closest_Some [OF f] obtain pre w post
      where d: "vectors = pre @ w # post" "rest = pre @ post" "endpoint_pair v = endpoint_pair w"
      by (auto split: if_splits)
    have "chain = vs @ (v # placed)" using p(1) by simp
    moreover have "length (v # placed) = length vectors" using p(2) d by simp
    moreover have "image_mset endpoint_pair (mset (v # placed))
                     = image_mset endpoint_pair (mset vectors)"
      using p(3) d by simp
    moreover have "(ex, ey) = (if v # placed = [] then (cx, cy)
                               else (x2 (last (v # placed)), y2 (last (v # placed))))"
      using p(4) by simp
    ultimately show ?thesis by blast
  qed
qed

lemma set_endpoints: "set (endpoints vs) = (\<Union>v\<in>set vs. {(x1 v, y1 v), (x2 v, y2 v)})"
  by (auto simp: endpoints_def)

lemma optimize_loop_returns:
  assumes "(cx, cy) \<in> P" and "set (endpoints vectors) \<subseteq> P"
    and "\<forall>(px, py)\<in>P. \<forall>v\<in>set vectors. in_radius px py v"
  shows "\<exists>r. optimize_loop_list vectors vs cx cy = Inr r"
  using assms
proof (induction vectors vs cx cy rule: optimize_loop_list.induct)
  case (1 vectors vs cx cy)
  show ?case
  proof (cases "vectors = []")
    case True
    then show ?thesis by (simp add: optimize_loop_list.simps)
  next
    case False
    then obtain u where u: "u \<in> set vectors" by (cases vectors) auto
    with "1.prems" have "in_radius cx cy u" by blast
    with u have "vector_find_closest_list vectors cx cy \<noteq> None"
      by (auto simp: vector_find_closest_None)
    then obtain v rest where f: "vector_find_closest_list vectors cx cy = Some (v, rest)"
      by auto
    from vector_find_closest_Some [OF f] obtain pre w post
      where d: "vectors = pre @ w # post" "rest = pre @ post" "v = flip w \<or> v = w"
      by (auto split: if_splits)
    from d(3) have "(x2 v, y2 v) \<in> {(x1 w, y1 w), (x2 w, y2 w)}"
      by (auto simp: flip_def)
    with d(1) "1.prems"(2) have a: "(x2 v, y2 v) \<in> P"
      by (auto simp: set_endpoints)
    from d "1.prems"(2) have b: "set (endpoints rest) \<subseteq> P"
      by (auto simp: set_endpoints)
    from d "1.prems"(3) have c: "\<forall>(px, py)\<in>P. \<forall>v\<in>set rest. in_radius px py v"
      by auto
    from "1.IH" [OF False f refl a b c] False f show ?thesis
      by (simp add: optimize_loop_list.simps [of vectors])
  qed
qed

lemma vector_optimize_returns:
  assumes "all_in_radius vectors cx cy"
  shows "\<exists>r. vector_optimize_list vectors cx cy = Inr r"
proof -
  let ?P = "set ((cx, cy) # endpoints vectors)"
  have "\<forall>(px, py)\<in>?P. \<forall>v\<in>set vectors. in_radius px py v"
    using assms unfolding all_in_radius_def list_all_iff by simp
  moreover have "(cx, cy) \<in> ?P" and "set (endpoints vectors) \<subseteq> ?P" by auto
  ultimately have "\<exists>r. optimize_loop_list vectors [] cx cy = Inr r"
    using optimize_loop_returns [of cx cy ?P vectors "[]"] by blast
  then show ?thesis by (simp only: vector_optimize_list_def)
qed

lemma vector_optimize_result:
  assumes "vector_optimize_list vectors cx cy = Inr (chain, ex, ey)"
  shows "length chain = length vectors
         \<and> image_mset endpoint_pair (mset chain) = image_mset endpoint_pair (mset vectors)
         \<and> (ex, ey) = (if chain = [] then (cx, cy) else (x2 (last chain), y2 (last chain)))"
  using optimize_loop_result [of vectors "[]" cx cy chain ex ey] assms
  by (auto simp: vector_optimize_list_def)

lemma vector_optimize_Abort:
  assumes "vector_optimize_list vectors cx cy = Inl e"
  shows "vectors \<noteq> [] \<and> \<not> all_in_radius vectors cx cy"
proof -
  have "\<not> all_in_radius vectors cx cy"
    using vector_optimize_returns [of vectors cx cy] assms by auto
  moreover have "vectors \<noteq> []"
    using assms by (auto simp: vector_optimize_list_def optimize_loop_list.simps)
  ultimately show ?thesis by simp
qed

lemma optimize_loop_within_reach:
  "(\<exists>r. optimize_loop_list vectors vs cx cy = Inr r) = within_reach vectors cx cy"
proof (induction vectors vs cx cy rule: optimize_loop_list.induct)
  case (1 vectors vs cx cy)
  show ?case
  proof (cases "vectors = []")
    case True
    then show ?thesis
      by (simp add: optimize_loop_list.simps [of "[]"] within_reach.simps [of "[]"])
  next
    case False
    show ?thesis
    proof (cases "vector_find_closest_list vectors cx cy")
      case None
      with False show ?thesis
        by (simp add: optimize_loop_list.simps [of vectors] within_reach.simps [of vectors])
    next
      case (Some p)
      obtain v rest where p: "p = (v, rest)" by (cases p) auto
      from Some have "\<not> (\<forall>u\<in>set vectors. \<not> in_radius cx cy u)"
        by (simp flip: vector_find_closest_None)
      then have "\<exists>u\<in>set vectors. in_radius cx cy u" by blast
      with "1.IH" [OF False Some [unfolded p] refl] False Some p show ?thesis
        by (simp add: optimize_loop_list.simps [of vectors] within_reach.simps [of vectors])
    qed
  qed
qed

lemma vector_optimize_within_reach:
  "(\<exists>r. vector_optimize_list vectors cx cy = Inr r) = within_reach vectors cx cy"
  unfolding vector_optimize_list_def by (rule optimize_loop_within_reach)

lemma all_in_radius_within_reach:
  "all_in_radius vectors cx cy \<Longrightarrow> within_reach vectors cx cy"
  using vector_optimize_returns [of vectors cx cy]
  by (simp only: vector_optimize_within_reach)

section \<open>Evaluation of the examples\<close>

lemmas run_simps =
  vector_optimize_list_def optimize_loop_list.simps vector_find_closest_list_def Let_def unlink_def flip_def

lemma scenario_all_in_radius: "all_in_radius scenario_store 0 0"
  by (simp add: scenario_store_def all_in_radius_def endpoints_def in_radius_def
      sqdist_A_def sqdist_B_def double_simps)

lemma scenario_run:
  "vector_optimize_list scenario_store 0 0
   = Inr ([\<lparr>x1 = Fin 0, y1 = Fin 0, x2 = Fin 1, y2 = Fin 0\<rparr>,
           \<lparr>x1 = Fin 1, y1 = Fin 0, x2 = Fin 1, y2 = Fin 1\<rparr>,
           \<lparr>x1 = Fin 5, y1 = Fin 5, x2 = Fin 5, y2 = Fin 6\<rparr>], Fin 5, Fin 6)"
  by (simp add: scenario_store_def run_simps double_simps)

lemma scenario_find:
  "vector_find_closest_list scenario_store (Fin 1) 0
   = Some (\<lparr>x1 = Fin 1, y1 = Fin 0, x2 = Fin 0, y2 = Fin 0\<rparr>,
           [\<lparr>x1 = Fin 5, y1 = Fin 6, x2 = Fin 5, y2 = Fin 5\<rparr>,
            \<lparr>x1 = Fin 1, y1 = Fin 0, x2 = Fin 1, y2 = Fin 1\<rparr>])"
  by (simp add: scenario_store_def run_simps double_simps)

lemma reach_store_run:
  "vector_optimize_list reach_store 0 0 = Inr (reach_store, Fin 50000, Fin 0)"
  by (simp add: reach_store_def run_simps double_simps)

lemma reach_store_not_all_in_radius: "\<not> all_in_radius reach_store 0 0"
  by (simp add: reach_store_def all_in_radius_def endpoints_def in_radius_def
      sqdist_A_def sqdist_B_def double_simps)

lemma vector_find_closest_out_of_reach_list:
  assumes "vectors \<noteq> []" and "\<forall>v\<in>set vectors. \<not> in_radius cx cy v"
  shows "vector_find_closest_list vectors cx cy = None
         \<and> vector_optimize_list vectors cx cy = Inl Abort"
proof -
  from assms(2) have n: "vector_find_closest_list vectors cx cy = None"
    by (simp only: vector_find_closest_None)
  with assms(1) have "vector_optimize_list vectors cx cy = Inl Abort"
    by (simp add: vector_optimize_list_def optimize_loop_list.simps)
  with n show ?thesis by simp
qed

lemma pen_transits_Cons:
  "pen_transits lx ly (v # vs) =
     sqrt_double ((lx - x1 v) * (lx - x1 v) + (ly - y1 v) * (ly - y1 v))
       # consecutive_transits (v # vs)"
  by (induction vs arbitrary: lx ly v) simp_all

lemma stats_loop_transits:
  "transit_len_sum (stats_loop_list vs lx ly st)
     = foldl (+) (transit_len_sum st) (filter (\<lambda>d. d \<noteq> 0) (pen_transits lx ly vs))
   \<and> transits (stats_loop_list vs lx ly st)
     = transits st + int (length (filter (\<lambda>d. d \<noteq> 0) (pen_transits lx ly vs)))"
  by (induction vs arbitrary: lx ly st) (simp_all add: Let_def)

lemma transit_len_loop_sum:
  "transit_len_loop_list vs lx ly s
     = foldl (+) s (filter (\<lambda>d. d \<noteq> 0) (pen_transits lx ly vs))"
  by (induction vs arbitrary: lx ly s) (simp_all add: Let_def)

lemma vector_stats_transit_counterexample_list:
  "transit_len_sum (vector_stats_list one_cut) = Fin 5
   \<and> transits (vector_stats_list one_cut) = 1
   \<and> consecutive_transits one_cut = []"
  by (simp add: one_cut_def vector_stats_list_def Let_def sqrt_25 double_simps)

lemma vector_stats_transit_list:
  "transit_len_sum (vector_stats_list chain)
     = foldl (+) 0 (filter (\<lambda>d. d \<noteq> 0) (pen_transits 0 0 chain))
   \<and> transits (vector_stats_list chain)
       = int (length (filter (\<lambda>d. d \<noteq> 0) (pen_transits 0 0 chain)))
   \<and> vector_transit_len_list chain
       = foldl (+) 0 (filter (\<lambda>d. d \<noteq> 0) (pen_transits 0 0 chain))
   \<and> pen_transits 0 0 chain
       = (case chain of [] \<Rightarrow> []
          | v # vs \<Rightarrow> sqrt_double ((0 - x1 v) * (0 - x1 v) + (0 - y1 v) * (0 - y1 v))
                      # consecutive_transits chain)"
proof -
  have "pen_transits 0 0 chain
       = (case chain of [] \<Rightarrow> []
          | v # vs \<Rightarrow> sqrt_double ((0 - x1 v) * (0 - x1 v) + (0 - y1 v) * (0 - y1 v))
                      # consecutive_transits chain)"
    by (cases chain) (simp_all only: pen_transits_Cons list.case pen_transits.simps)
  then show ?thesis
    using stats_loop_transits [of chain 0 0]
    by (simp add: vector_stats_list_def vector_transit_len_list_def transit_len_loop_sum)
qed

section \<open>The loops of the refinement\<close>

lemma longest_transit_loop_none:
  "no_transit vs cx cy \<Longrightarrow> longest_transit_loop_list vs i cx cy m tv = (m, tv)"
  by (induction vs arbitrary: i cx cy) (simp_all add: Let_def)

lemma longest_transit_loop_index:
  "longest_transit_loop_list vs i cx cy m tv = (m', Some t)
   \<Longrightarrow> (\<forall>j. tv = Some j \<longrightarrow> j < i + length vs) \<Longrightarrow> t < i + length vs"
proof (induction vs arbitrary: i cx cy m tv)
  case Nil
  then show ?case by simp
next
  case (Cons v vs)
  from Cons.prems show ?case
    by (auto simp: Let_def split: if_splits dest!: Cons.IH)
qed

lemma longest_transit_index:
  "longest_transit_list vector cx cy = Some t \<Longrightarrow> t < length vector"
  using longest_transit_loop_index [of vector 0 cx cy 0 None _ t]
  by (cases "longest_transit_loop_list vector 0 cx cy 0 None") (auto simp: longest_transit_list_def)

lemma closest_loop_Cons:
  "closest_loop_list (v # vs) i tv md cl =
     (if md < sqdist_to tv v then closest_loop_list vs (Suc i) tv md cl
      else closest_loop_list vs (Suc i) tv (sqdist_to tv v) (Some i))"
  by (simp add: sqdist_to_def Let_def)

lemma closest_loop_pick:
  "closest_loop_list vs i tv md cl = (md', cl')
   \<Longrightarrow> (\<forall>u\<in>set vs. md < sqdist_to tv u) \<and> md' = md \<and> cl' = cl
       \<or> (\<exists>pre w post. vs = pre @ w # post \<and> cl' = Some (i + length pre)
            \<and> md' = sqdist_to tv w
            \<and> (\<forall>u\<in>set post. sqdist_to tv w < sqdist_to tv u))"
proof (induction vs arbitrary: i md cl)
  case Nil
  then show ?case by simp
next
  case (Cons v vs)
  show ?case
  proof (cases "md < sqdist_to tv v")
    case True
    with Cons.prems have r: "closest_loop_list vs (Suc i) tv md cl = (md', cl')"
      by (simp add: closest_loop_Cons del: closest_loop_list.simps)
    from Cons.IH [OF r] show ?thesis
    proof (elim disjE exE conjE)
      assume "\<forall>u\<in>set vs. md < sqdist_to tv u" "md' = md" "cl' = cl"
      with True show ?thesis by simp
    next
      fix pre w post
      assume a: "vs = pre @ w # post" "cl' = Some (Suc i + length pre)"
        "md' = sqdist_to tv w"
        "\<forall>u\<in>set post. sqdist_to tv w < sqdist_to tv u"
      then have "v # vs = (v # pre) @ w # post \<and> cl' = Some (i + length (v # pre))
            \<and> md' = sqdist_to tv w
            \<and> (\<forall>u\<in>set post. sqdist_to tv w < sqdist_to tv u)"
        by auto
      then show ?thesis by blast
    qed
  next
    case False
    with Cons.prems
    have r: "closest_loop_list vs (Suc i) tv (sqdist_to tv v) (Some i) = (md', cl')"
      by (simp add: closest_loop_Cons del: closest_loop_list.simps)
    from Cons.IH [OF r] show ?thesis
    proof (elim disjE exE conjE)
      assume "\<forall>u\<in>set vs. sqdist_to tv v < sqdist_to tv u" "md' = sqdist_to tv v"
        "cl' = Some i"
      then have "v # vs = [] @ v # vs \<and> cl' = Some (i + length ([]::vector list))
            \<and> md' = sqdist_to tv v
            \<and> (\<forall>u\<in>set vs. sqdist_to tv v < sqdist_to tv u)"
        by auto
      then show ?thesis by blast
    next
      fix pre w post
      assume a: "vs = pre @ w # post" "cl' = Some (Suc i + length pre)"
        "md' = sqdist_to tv w"
        "\<forall>u\<in>set post. sqdist_to tv w < sqdist_to tv u"
      then have "v # vs = (v # pre) @ w # post \<and> cl' = Some (i + length (v # pre))
            \<and> md' = sqdist_to tv w
            \<and> (\<forall>u\<in>set post. sqdist_to tv w < sqdist_to tv u)"
        by auto
      then show ?thesis by blast
    qed
  qed
qed

lemma closest_loop_min:
  "closest_loop_list vs i tv md cl = (md', cl') \<Longrightarrow> md \<noteq> NaN
   \<Longrightarrow> \<forall>u\<in>set vs. sqdist_to tv u \<noteq> NaN
   \<Longrightarrow> md' \<le> md \<and> (\<forall>u\<in>set vs. md' \<le> sqdist_to tv u)"
proof (induction vs arbitrary: i md cl)
  case Nil
  then show ?case by (simp add: less_eq_double_def)
next
  case (Cons v vs)
  from Cons.prems(3) have nv: "sqdist_to tv v \<noteq> NaN"
    and nvs: "\<forall>u\<in>set vs. sqdist_to tv u \<noteq> NaN"
    by simp_all
  show ?case
  proof (cases "md < sqdist_to tv v")
    case True
    with Cons.prems have r: "closest_loop_list vs (Suc i) tv md cl = (md', cl')"
      by (simp add: closest_loop_Cons del: closest_loop_list.simps)
    from Cons.IH [OF r Cons.prems(2) nvs]
    have i: "md' \<le> md" "\<forall>u\<in>set vs. md' \<le> sqdist_to tv u" by simp_all
    from le_less_double_trans [OF i(1) True] have "md' \<le> sqdist_to tv v"
      by (simp add: less_eq_double_def)
    with i show ?thesis by simp
  next
    case False
    with Cons.prems
    have r: "closest_loop_list vs (Suc i) tv (sqdist_to tv v) (Some i) = (md', cl')"
      by (simp add: closest_loop_Cons del: closest_loop_list.simps)
    from Cons.IH [OF r nv nvs]
    have i: "md' \<le> sqdist_to tv v" "\<forall>u\<in>set vs. md' \<le> sqdist_to tv u" by simp_all
    from False Cons.prems(2) nv have "sqdist_to tv v \<le> md"
      by (simp add: not_less_double)
    with i(1) have "md' \<le> md" by (rule le_double_trans)
    with i show ?thesis by simp
  qed
qed

lemma closest_prior_None:
  assumes "t < length vector" and "closest_prior_list vector t = None"
  shows "\<forall>j<t. round_double 1000000000 < prior_dist vector t j"
proof -
  obtain md cl
    where l: "closest_loop_list (take t vector) 0 (vector ! t) (round_double 1000000000) None
                = (md, cl)"
    by (cases "closest_loop_list (take t vector) 0 (vector ! t) (round_double 1000000000) None")
       auto
  with assms(2) have "cl = None" by (simp add: closest_prior_list_def)
  with closest_loop_pick [OF l]
  have a: "\<forall>u\<in>set (take t vector). round_double 1000000000 < sqdist_to (vector ! t) u"
    by auto
  show ?thesis
  proof (intro allI impI)
    fix j assume j: "j < t"
    with assms(1) have "vector ! j \<in> set (take t vector)"
      by (metis in_set_conv_nth length_take min.absorb2 less_imp_le nth_take)
    with a show "round_double 1000000000 < prior_dist vector t j"
      by (simp add: prior_dist_def)
  qed
qed

lemma closest_prior_Some:
  assumes "t < length vector" and "closest_prior_list vector t = Some c"
  shows "c < t
         \<and> (\<forall>j. c < j \<and> j < t \<longrightarrow> prior_dist vector t c < prior_dist vector t j)
         \<and> ((\<forall>j<t. prior_dist vector t j \<noteq> NaN)
              \<longrightarrow> prior_dist vector t c \<le> round_double 1000000000
                  \<and> (\<forall>j<t. prior_dist vector t c \<le> prior_dist vector t j))"
proof -
  let ?tv = "vector ! t"
  obtain md cl
    where l: "closest_loop_list (take t vector) 0 ?tv (round_double 1000000000) None = (md, cl)"
    by (cases "closest_loop_list (take t vector) 0 ?tv (round_double 1000000000) None") auto
  with assms(2) have cl: "cl = Some c" by (simp add: closest_prior_list_def)
  with closest_loop_pick [OF l] obtain pre w post
    where d: "take t vector = pre @ w # post" "c = length pre"
      "md = sqdist_to ?tv w"
      "\<forall>u\<in>set post. sqdist_to ?tv w < sqdist_to ?tv u"
    by auto
  from d(1) assms(1) have len: "t = length pre + Suc (length post)"
    by (metis length_take min.absorb2 less_imp_le length_append length_Cons)
  have nth: "vector ! j = (pre @ w # post) ! j" if "j < t" for j
    using that d(1) by (metis nth_take)
  from len d(2) have ct: "c < t" by simp
  from nth [OF ct] d(2) have w: "vector ! c = w" by simp
  have lt: "prior_dist vector t c < prior_dist vector t j" if "c < j" "j < t" for j
  proof -
    from that d(2) len have "(pre @ w # post) ! j = post ! (j - Suc (length pre))"
      and "j - Suc (length pre) < length post"
      by (auto simp: nth_append nth_Cons')
    then have "(pre @ w # post) ! j \<in> set post" by simp
    with d(4) have "sqdist_to ?tv w < sqdist_to ?tv ((pre @ w # post) ! j)" by blast
    with nth [OF that(2)] w show ?thesis by (simp add: prior_dist_def)
  qed
  have mn: "prior_dist vector t c \<le> round_double 1000000000
            \<and> (\<forall>j<t. prior_dist vector t c \<le> prior_dist vector t j)"
    if n: "\<forall>j<t. prior_dist vector t j \<noteq> NaN"
  proof -
    have "\<forall>u\<in>set (take t vector). sqdist_to ?tv u \<noteq> NaN"
    proof
      fix u assume "u \<in> set (take t vector)"
      then obtain j where "j < t" "u = vector ! j"
        using assms(1) by (auto simp: in_set_conv_nth)
      with n show "sqdist_to ?tv u \<noteq> NaN" by (auto simp: prior_dist_def)
    qed
    from closest_loop_min [OF l _ this]
    have m: "md \<le> round_double 1000000000" "\<forall>u\<in>set (take t vector). md \<le> sqdist_to ?tv u"
      by (simp_all add: lit_1e9)
    have "prior_dist vector t c \<le> prior_dist vector t j" if "j < t" for j
    proof -
      from that assms(1) have "vector ! j \<in> set (take t vector)"
        by (metis in_set_conv_nth length_take min.absorb2 less_imp_le nth_take)
      with m(2) w d(3) show ?thesis by (simp add: prior_dist_def)
    qed
    with m(1) w d(3) show ?thesis by (simp add: prior_dist_def)
  qed
  from ct lt mn show ?thesis by blast
qed

section \<open>Relinking\<close>

lemma take_unlink:
  "c < t \<Longrightarrow> t < length vs \<Longrightarrow> take (Suc c) (unlink t vs) = take (Suc c) vs"
  by (simp add: unlink_def min_def)

lemma drop_unlink:
  "c < t \<Longrightarrow> t < length vs
   \<Longrightarrow> drop (Suc c) (unlink t vs) = drop (Suc c) (take t vs) @ drop (Suc t) vs"
  by (simp add: unlink_def min_def)

lemma vector_refine_relink:
  assumes "longest_transit_list vector cx cy = Some t" and "closest_prior_list vector t = Some c"
  shows "vector_refine_list vector cx cy =
     (case vector_optimize_list (drop (Suc c) (take t vector) @ drop (Suc t) vector)
             (x2 (vector ! t)) (y2 (vector ! t)) of
        Inl e \<Rightarrow> Inl e
      | Inr (sorted_tail, ex, ey) \<Rightarrow>
          Inr (take (Suc c) vector @ vector ! t # sorted_tail, ex, ey,
               vector_transit_len_list vector
                 - vector_transit_len_list (take (Suc c) vector @ vector ! t # sorted_tail)))"
proof -
  from assms have "t < length vector" "c < t"
    using closest_prior_Some longest_transit_index by blast+
  with assms show ?thesis
    by (simp add: vector_refine_list_def Let_def take_unlink drop_unlink
        split: sum.splits prod.splits)
qed

lemma tie_chain_longest: "longest_transit_list tie_chain 0 0 = Some 2"
  by (simp add: tie_chain_def longest_transit_list_def fpeq_def eps_num double_simps)

lemma tie_chain_closest: "closest_prior_list tie_chain 2 = Some 1"
  by (simp add: tie_chain_def closest_prior_list_def double_simps)

lemma detour_chain_longest: "longest_transit_list detour_chain 0 0 = Some 2"
  by (simp add: detour_chain_def longest_transit_list_def fpeq_def eps_num double_simps
      sqrt_16 sqrt_25 sqrt_9)

lemma detour_chain_closest: "closest_prior_list detour_chain 2 = Some 0"
  by (simp add: detour_chain_def closest_prior_list_def double_simps)

lemma detour_chain_tail:
  "vector_optimize_list (drop (Suc 0) (take 2 detour_chain) @ drop (Suc 2) detour_chain)
     (Fin 6) (Fin 4)
     = Inr ([\<lparr>x1 = Fin 6, y1 = Fin 2, x2 = Fin 6, y2 = Fin 1\<rparr>,
             \<lparr>x1 = Fin 6, y1 = Fin 0, x2 = Fin 5, y2 = Fin 0\<rparr>], Fin 5, Fin 0)"
  by (simp add: detour_chain_def run_simps double_simps)

section \<open>Linked lists in memory\<close>

lemma vec_sel [simp]:
  "x1 (vec h a) = x1 (nodes h a)" "y1 (vec h a) = y1 (nodes h a)"
  "x2 (vec h a) = x2 (nodes h a)" "y2 (vec h a) = y2 (nodes h a)"
  by (simp_all add: vec_def vector.truncate_def)

lemma find_closest_mem_loop_None:
  "find_closest_loop h None cx cy bd best rv = Some (bd, best, rv)"
  by (simp add: find_closest_loop.simps)

lemma find_closest_mem_loop_Some:
  "find_closest_loop h (Some a) cx cy bd best rv =
     (if sqdist_A cx cy (vec h a) < bd
      then (if sqdist_B cx cy (vec h a) < sqdist_A cx cy (vec h a)
            then find_closest_loop h (nextp (nodes h a)) cx cy
                   (sqdist_B cx cy (vec h a)) (Some a) True
            else find_closest_loop h (nextp (nodes h a)) cx cy
                   (sqdist_A cx cy (vec h a)) (Some a) False)
      else (if sqdist_B cx cy (vec h a) < bd
            then find_closest_loop h (nextp (nodes h a)) cx cy
                   (sqdist_B cx cy (vec h a)) (Some a) True
            else find_closest_loop h (nextp (nodes h a)) cx cy bd best rv))"
  by (subst find_closest_loop.simps) (simp add: sqdist_A_def sqdist_B_def Let_def)

lemma find_closest_mem_loop_refines:
  assumes "path h p as" and "as = drop i all" and "best = map_option ((!) all) bi"
  shows "find_closest_loop h p cx cy bd best rv =
     Some (case find_closest_loop_list (map (vec h) as) i cx cy bd bi rv of
             (bd', bi', rv') \<Rightarrow> (bd', map_option ((!) all) bi', rv'))"
  using assms
proof (induction as arbitrary: p i bd best bi rv)
  case Nil
  then show ?case by (simp add: find_closest_mem_loop_None)
next
  case (Cons a as)
  from Cons.prems(1) have p: "p = Some a" and n: "path h (nextp (nodes h a)) as" by simp_all
  from Cons.prems(2) have a: "all ! i = a" and d: "as = drop (Suc i) all"
    by (metis nth_via_drop, metis drop_Suc tl_drop list.sel(3))
  have sa: "Some a = map_option ((!) all) (Some i)" using a by simp
  note ih = Cons.IH [OF n d]
  show ?case
    unfolding p list.map find_closest_mem_loop_Some find_closest_loop_Cons
    by (simp add: ih [OF sa] ih [OF Cons.prems(3)])
qed

lemma load_simps:
  "load h (Head k) = heads h k" "load h (NextOf a) = nextp (nodes h a)"
  by (simp_all add: load_def)

lemma take_node_facts:
  assumes "prevp (nodes h a) = Some s" and "s \<noteq> NextOf a"
  shows "load (take_node h a rv) s' =
           (if s' = NextOf a then None else if s' = s then nextp (nodes h a) else load h s')"
    and "prevp (nodes (take_node h a rv) c) =
           (if c = a then None else if nextp (nodes h a) = Some c then Some s
            else prevp (nodes h c))"
    and "vec (take_node h a rv) c = (if c = a \<and> rv then flip (vec h a) else vec h c)"
  using assms
  by (cases s; cases s'; cases "nextp (nodes h a)";
      auto simp: load_simps take_node_def unlink_node_def flip_node_def clear_links_def store_def
        Let_def vec_def vector.truncate_def flip_def)+

lemma dll_cong:
  assumes "load h' r = load h r"
    and "\<forall>a\<in>set as. load h' (NextOf a) = load h (NextOf a)
                     \<and> prevp (nodes h' a) = prevp (nodes h a)"
  shows "dll h' r as = dll h r as"
  using assms by (induction as arbitrary: r) auto

lemma dll_path: "dll h r as \<Longrightarrow> path h (load h r) as"
proof (induction as arbitrary: r)
  case Nil
  then show ?case by simp
next
  case (Cons a as)
  from Cons.prems have "dll h (NextOf a) as" by simp
  from Cons.IH [OF this] Cons.prems show ?case by (simp add: load_simps)
qed

lemma dll_without:
  assumes "dll h r (pre @ a # post)" and "distinct (pre @ a # post)"
    and "r \<notin> NextOf ` set (pre @ a # post)"
    and L: "\<And>s'. s' \<noteq> NextOf a \<Longrightarrow>
              load h' s' = (if Some s' = prevp (nodes h a) then load h (NextOf a)
                            else load h s')"
    and P: "\<And>x. x \<noteq> a \<Longrightarrow>
              prevp (nodes h' x) = (if load h (NextOf a) = Some x then prevp (nodes h a)
                                    else prevp (nodes h x))"
  shows "dll h' r (pre @ post)"
  using assms(1-3)
proof (induction pre arbitrary: r)
  case Nil
  then have pa: "prevp (nodes h a) = Some r" and ne: "r \<noteq> NextOf a"
    and tl: "dll h (NextOf a) post" and da: "a \<notin> set post" and dp: "distinct post"
    and rp: "r \<notin> NextOf ` set post"
    by auto
  show ?case
  proof (cases post)
    case Nil
    with tl show ?thesis using ne by (simp add: L pa)
  next
    case (Cons b post')
    with tl have nb: "load h (NextOf a) = Some b" and t2: "dll h (NextOf b) post'"
      by simp_all
    from Cons da dp rp have d: "b \<noteq> a" "b \<notin> set post'" "a \<notin> set post'" "r \<noteq> NextOf b"
      "r \<notin> NextOf ` set post'"
      by auto
    have "dll h' (NextOf b) post' = dll h (NextOf b) post'"
    proof (intro dll_cong ballI conjI)
      show "load h' (NextOf b) = load h (NextOf b)" using d pa by (simp add: L)
    next
      fix x assume "x \<in> set post'"
      with d have x: "x \<noteq> a" "x \<noteq> b" "r \<noteq> NextOf x" by auto
      then show "load h' (NextOf x) = load h (NextOf x)" using pa by (simp add: L)
      from x show "prevp (nodes h' x) = prevp (nodes h x)" using nb by (simp add: P)
    qed
    with t2 have "dll h' (NextOf b) post'" by simp
    moreover have "load h' r = Some b" using ne nb pa by (simp add: L)
    moreover have "prevp (nodes h' b) = Some r" using d nb pa by (simp add: P)
    ultimately show ?thesis using Cons by simp
  qed
next
  case (Cons b pre)
  then have lb: "load h r = Some b" and pb: "prevp (nodes h b) = Some r"
    and tl: "dll h (NextOf b) (pre @ a # post)" and di: "distinct (pre @ a # post)"
    and bn: "b \<notin> set (pre @ a # post)" and rn: "r \<notin> NextOf ` set (b # pre @ a # post)"
    by auto
  from bn have nb: "NextOf b \<notin> NextOf ` set (pre @ a # post)" by auto
  from Cons.IH [OF tl di nb] have ih: "dll h' (NextOf b) (pre @ post)" .
  obtain s where pa: "prevp (nodes h a) = Some s" and sm: "s \<in> NextOf ` set (b # pre)"
    using tl
  proof (induction pre arbitrary: b thesis)
    case Nil
    then show ?case by auto
  next
    case (Cons c pre)
    from Cons.prems(2) have "dll h (NextOf c) (pre @ a # post)" by simp
    from Cons.IH [OF _ this] obtain s where "prevp (nodes h a) = Some s"
      "s \<in> NextOf ` set (c # pre)" by blast
    with Cons.prems(1) show ?case by auto
  qed
  from sm rn have sr: "s \<noteq> r" by auto
  from rn have ra: "r \<noteq> NextOf a" by auto
  have "load h' r = Some b" using lb sr ra pa by (simp add: L)
  moreover have "prevp (nodes h' b) = Some r"
  proof -
    from bn have "b \<noteq> a" by auto
    moreover have "load h (NextOf a) \<noteq> Some b"
    proof
      assume e: "load h (NextOf a) = Some b"
      have "\<And>r. dll h r (pre @ a # post) \<Longrightarrow> load h (NextOf a) = Some b \<Longrightarrow> b \<in> set post"
      proof (induction pre)
        case Nil
        then show ?case by (cases post) auto
      next
        case (Cons c pre)
        then show ?case by auto
      qed
      from this [OF tl e] bn show False by auto
    qed
    ultimately show ?thesis using pb by (simp add: P)
  qed
  ultimately show ?case using ih by simp
qed

lemma dll_self:
  assumes "dll h r (pre @ a # post)" and "distinct (pre @ a # post)"
    and "r \<notin> NextOf ` set (pre @ a # post)"
  shows "\<exists>s. prevp (nodes h a) = Some s \<and> s \<noteq> NextOf a" and "load h (NextOf a) \<noteq> Some a"
proof -
  have p: "\<And>r. dll h r (pre @ a # post) \<Longrightarrow>
             prevp (nodes h a) = Some r \<or> prevp (nodes h a) \<in> Some ` NextOf ` set pre"
  proof (induction pre)
    case Nil
    then show ?case by simp
  next
    case (Cons c pre)
    from Cons.prems have "dll h (NextOf c) (pre @ a # post)" by simp
    from Cons.IH [OF this] show ?case by auto
  qed
  from p [OF assms(1)] assms(2,3)
  show "\<exists>s. prevp (nodes h a) = Some s \<and> s \<noteq> NextOf a" by auto
  have n: "\<And>r. dll h r (pre @ a # post) \<Longrightarrow> load h (NextOf a) = Some a \<Longrightarrow> a \<in> set post"
  proof (induction pre)
    case Nil
    then show ?case by (cases post) auto
  next
    case (Cons c pre)
    then show ?case by auto
  qed
  from n [OF assms(1)] assms(2) show "load h (NextOf a) \<noteq> Some a" by auto
qed

lemma dll_take_node:
  assumes "dll h r (pre @ a # post)" and "distinct (pre @ a # post)"
    and "r \<notin> NextOf ` set (pre @ a # post)"
  shows "dll (take_node h a rv) r (pre @ post)"
proof -
  from dll_self(1) [OF assms] obtain s
    where pa: "prevp (nodes h a) = Some s" and ne: "s \<noteq> NextOf a" by blast
  note f = take_node_facts [OF pa ne, of rv]
  show ?thesis
    by (rule dll_without [OF assms]) (auto simp: f pa load_simps)
qed

lemma dll_prev_of:
  "dll h r (pre @ a # post) \<Longrightarrow> prevp (nodes h a) = Some (last_ref r pre)"
proof (induction pre arbitrary: r)
  case Nil
  then show ?case by (simp add: last_ref_def)
next
  case (Cons b pre)
  from Cons.prems have "dll h (NextOf b) (pre @ a # post)" by simp
  from Cons.IH [OF this] show ?case by (simp add: last_ref_def)
qed

lemma last_ref_cases: "last_ref r pre = r \<or> last_ref r pre \<in> NextOf ` set pre"
  by (auto simp: last_ref_def)

lemma wf_take_node:
  assumes "wf_list h r (pre @ a # post)"
  shows "wf_list (take_node h a rv) r (pre @ post)"
    and "map (vec (take_node h a rv)) (pre @ post) = map (vec h) (pre @ post)"
    and "vec (take_node h a rv) a = (if rv then flip (vec h a) else vec h a)"
    and "load (take_node h a rv) (NextOf a) = None"
    and "prevp (nodes (take_node h a rv) a) = None"
proof -
  from assms have d: "dll h r (pre @ a # post)" and di: "distinct (pre @ a # post)"
    and rn: "r \<notin> NextOf ` set (pre @ a # post)"
    by (simp_all add: wf_list_def)
  from dll_take_node [OF d di rn] di rn
  show "wf_list (take_node h a rv) r (pre @ post)" by (auto simp: wf_list_def)
  have pa: "prevp (nodes h a) = Some (last_ref r pre)" by (rule dll_prev_of [OF d])
  have ne: "last_ref r pre \<noteq> NextOf a"
    using last_ref_cases [of r pre] di rn by auto
  note f = take_node_facts [OF pa ne, of rv]
  from di show "map (vec (take_node h a rv)) (pre @ post) = map (vec h) (pre @ post)"
    by (auto simp: f)
  show "vec (take_node h a rv) a = (if rv then flip (vec h a) else vec h a)"
    by (simp add: f)
  show "load (take_node h a rv) (NextOf a) = None" by (simp add: f)
  show "prevp (nodes (take_node h a rv) a) = None" by (simp add: f)
qed

lemma vector_find_closest_mem_refines:
  assumes "wf_list h r as"
  shows "case vector_find_closest_list (map (vec h) as) cx cy of
           None \<Rightarrow> vector_find_closest h (load h r) cx cy = Some (h, None)
         | Some (b, rest) \<Rightarrow>
             (\<exists>pre a post rv. as = pre @ a # post
                \<and> vector_find_closest h (load h r) cx cy = Some (take_node h a rv, Some a)
                \<and> b = (if rv then flip (vec h a) else vec h a)
                \<and> rest = map (vec h) (pre @ post))"
proof -
  from assms have d: "dll h r as" by (simp add: wf_list_def)
  obtain bd bi rv
    where l: "find_closest_loop_list (map (vec h) as) 0 cx cy (round_double 1000000000) None False = (bd, bi, rv)"
    by (cases "find_closest_loop_list (map (vec h) as) 0 cx cy (round_double 1000000000) None False") auto
  from find_closest_mem_loop_refines [OF dll_path [OF d], of 0 as None None cx cy "round_double 1000000000" False]
  have m: "find_closest_loop h (load h r) cx cy (round_double 1000000000) None False
             = Some (bd, map_option ((!) as) bi, rv)"
    by (simp add: l)
  show ?thesis
  proof (cases bi)
    case None
    with l m show ?thesis
      by (simp add: vector_find_closest_list_def vector_find_closest_def)
  next
    case (Some k)
    with find_closest_loop_index [of "map (vec h) as" 0 cx cy "round_double 1000000000" None False bd k rv] l
    have k: "k < length as" by simp
    then have as: "as = take k as @ as ! k # drop (Suc k) as"
      by (simp add: id_take_nth_drop)
    have u: "unlink k (map (vec h) as) = map (vec h) (take k as @ drop (Suc k) as)"
      by (simp add: unlink_def take_map drop_map)
    from Some l m k u as show ?thesis
      by (auto simp: vector_find_closest_list_def vector_find_closest_def
          simp del: append_take_drop_id)
  qed
qed

lemma frame_refl: "frame h h r N"
  by (simp add: frame_def)

lemma frame_trans: "frame h h1 r N \<Longrightarrow> frame h1 h2 r N \<Longrightarrow> frame h h2 r N"
  by (simp add: frame_def)

lemma append_node_facts:
  assumes "t \<noteq> v"
  shows "load (append_node h t v) s =
           (if s = NextOf t then Some v else if s = NextOf v then None else load h s)"
    and "prevp (nodes (append_node h t v) x) =
           (if x = v then Some (NextOf t) else prevp (nodes h x))"
    and "vec (append_node h t v) x = vec h x"
  using assms
  by (cases s; auto simp: load_simps append_node_def Let_def vec_def vector.truncate_def)+

lemma finish_chain_facts:
  "load (finish_chain h r vs) s = (if s = r then vs else load h s)"
  "prevp (nodes (finish_chain h r vs) x) = (if vs = Some x then Some r else prevp (nodes h x))"
  "vec (finish_chain h r vs) x = vec h x"
  by (cases s; cases r; cases vs;
      auto simp: load_simps finish_chain_def store_def Let_def vec_def vector.truncate_def)+

lemma dll_next_of:
  "dll h r (pre @ a # post) \<Longrightarrow>
     load h (NextOf a) = (case post of [] \<Rightarrow> None | b # bs \<Rightarrow> Some b)"
proof (induction pre arbitrary: r)
  case Nil
  then show ?case by (cases post) simp_all
next
  case (Cons b pre)
  from Cons.prems have "dll h (NextOf b) (pre @ a # post)" by simp
  from Cons.IH [OF this] show ?case .
qed

lemma frame_take_node:
  assumes "wf_list h r (pre @ a # post)"
  shows "frame h (take_node h a rv) r (set (pre @ a # post))"
proof -
  from assms have d: "dll h r (pre @ a # post)" and di: "distinct (pre @ a # post)"
    and rn: "r \<notin> NextOf ` set (pre @ a # post)"
    by (simp_all add: wf_list_def)
  have pa: "prevp (nodes h a) = Some (last_ref r pre)" by (rule dll_prev_of [OF d])
  have ne: "last_ref r pre \<noteq> NextOf a"
    using last_ref_cases [of r pre] di rn by auto
  note f = take_node_facts [OF pa ne, of rv]
  have nx: "nextp (nodes h a) = Some x \<Longrightarrow> x \<in> set post" for x
    using dll_next_of [OF d] by (cases post) (auto simp: load_simps)
  show ?thesis
    unfolding frame_def using last_ref_cases [of r pre] nx
    by (auto simp: f)
qed

lemma dll_append_node:
  assumes "dll h (NextOf c) cs" and "distinct (c # cs)" and "v \<notin> set (c # cs)"
  shows "dll (append_node h (last (c # cs)) v) (NextOf c) (cs @ [v])"
  using assms
proof (induction cs arbitrary: c)
  case Nil
  then have "c \<noteq> v" by auto
  note f = append_node_facts [OF this]
  from Nil show ?case by (simp add: f)
next
  case (Cons d cs)
  define t where "t = last (d # cs)"
  from Cons.prems have tv: "t \<noteq> v" unfolding t_def
    by (metis last_in_set list.distinct(1) list.set_intros(2))
  note f = append_node_facts [OF tv]
  from Cons.prems have ct: "c \<noteq> t" unfolding t_def
    by (metis distinct.simps(2) last_in_set list.distinct(1))
  from Cons.prems have "dll (append_node h (last (d # cs)) v) (NextOf d) (cs @ [v])"
    by (intro Cons.IH) auto
  then have ih: "dll (append_node h t v) (NextOf d) (cs @ [v])" by (simp only: t_def)
  from Cons.prems ct have "load (append_node h t v) (NextOf c) = Some d"
    by (auto simp: f)
  moreover from Cons.prems have "prevp (nodes (append_node h t v) d) = Some (NextOf c)"
    by (auto simp: f)
  ultimately have "dll (append_node h t v) (NextOf c) ((d # cs) @ [v])" using ih by simp
  then show ?case by (simp only: t_def last_ConsR [OF list.distinct(2)])
qed

lemma opt_inv_first:
  assumes "opt_inv h r (pre @ a # post) [] None"
  shows "opt_inv (take_node h a rv) r (pre @ post) [a] (Some (a, a))"
proof -
  from assms have w: "wf_list h r (pre @ a # post)" by (simp add: opt_inv_def)
  then have "a \<notin> set (pre @ post)" "r \<noteq> NextOf a" by (auto simp: wf_list_def)
  with wf_take_node(1,4) [OF w, of rv] show ?thesis
    by (auto simp: opt_inv_def)
qed

lemma opt_inv_next:
  assumes "opt_inv h r (pre @ a # post) (c # cs) (Some (c, t))"
  shows "opt_inv (append_node (take_node h a rv) t a) r (pre @ post) (c # cs @ [a]) (Some (c, a))"
proof -
  let ?as = "pre @ a # post"
  let ?h1 = "take_node h a rv"
  let ?h2 = "append_node ?h1 t a"
  from assms have w: "wf_list h r ?as" and dc: "distinct (c # cs)"
    and dj: "set (c # cs) \<inter> set ?as = {}" and rn: "r \<notin> NextOf ` set (c # cs)"
    and t: "t = last (c # cs)" and dl: "dll h (NextOf c) cs"
    by (simp_all add: opt_inv_def)
  from w have di: "distinct ?as" and ra: "r \<notin> NextOf ` set ?as"
    by (simp_all add: wf_list_def)
  have tin: "t \<in> set (c # cs)" unfolding t by (rule last_in_set) simp
  with dj have ta: "t \<noteq> a" and tn: "t \<notin> set (pre @ post)" by auto
  note f = append_node_facts [OF ta]
  note fr = frame_take_node [OF w, of rv]
  have dl1: "dll ?h1 (NextOf c) cs"
  proof -
    have "dll ?h1 (NextOf c) cs = dll h (NextOf c) cs"
      using fr dj rn by (intro dll_cong) (auto simp: frame_def)
    with dl show ?thesis by simp
  qed
  from dj have av: "a \<notin> set (c # cs)" by auto
  from dll_append_node [OF dl1 dc av] have dl2: "dll ?h2 (NextOf c) (cs @ [a])"
    by (simp only: t)
  have w1: "wf_list ?h1 r (pre @ post)" by (rule wf_take_node(1) [OF w])
  have "dll ?h2 r (pre @ post) = dll ?h1 r (pre @ post)"
    using tin rn ra di tn by (intro dll_cong) (auto simp: f)
  with w1 have w2: "wf_list ?h2 r (pre @ post)" by (simp add: wf_list_def)
  from w2 dl2 dc dj di rn ra show ?thesis
    by (auto simp: opt_inv_def)
qed

lemma optimize_mem_loop_empty:
  "load h r = None \<Longrightarrow> optimize_loop h r chain cx cy = Some (Inr (h, chain, cx, cy))"
  by (subst optimize_loop.simps) simp

lemma optimize_mem_loop_abort:
  "load h r = Some p \<Longrightarrow> vector_find_closest h (Some p) cx cy = Some (h1, None)
   \<Longrightarrow> optimize_loop h r chain cx cy = Some (Inl Abort)"
  by (subst optimize_loop.simps) simp

lemma optimize_mem_loop_step:
  "load h r = Some p \<Longrightarrow> vector_find_closest h (Some p) cx cy = Some (h1, Some v)
   \<Longrightarrow> optimize_loop h r chain cx cy
       = optimize_loop (place h1 chain v) r (placed chain v)
           (x2 (nodes (place h1 chain v) v)) (y2 (nodes (place h1 chain v) v))"
  by (subst optimize_loop.simps)
     (simp add: place_def placed_def Let_def split: option.splits prod.splits)

lemma opt_inv_step:
  fixes rv :: bool
  assumes "opt_inv h r (pre @ a # post) cs chain"
  defines "h2 \<equiv> place (take_node h a rv) chain a"
  shows "opt_inv h2 r (pre @ post) (cs @ [a]) (placed chain a)"
    and "frame h h2 r (set (pre @ a # post) \<union> set cs)"
    and "vec h2 a = (if rv then flip (vec h a) else vec h a)"
    and "map (vec h2) (pre @ post) = map (vec h) (pre @ post)"
    and "map (vec h2) cs = map (vec h) cs"
proof -
  let ?as = "pre @ a # post"
  let ?h1 = "take_node h a rv"
  from assms(1) have w: "wf_list h r ?as" and dj: "set cs \<inter> set ?as = {}"
    by (simp_all add: opt_inv_def)
  note fr = frame_take_node [OF w, of rv]
  note tk = wf_take_node [OF w, of rv]
  have f1: "frame h ?h1 r (set ?as \<union> set cs)"
    using fr by (auto simp: frame_def)
  have v1: "map (vec ?h1) cs = map (vec h) cs"
    using fr dj by (auto simp: frame_def)
  have all: "opt_inv h2 r (pre @ post) (cs @ [a]) (placed chain a)
      \<and> frame h h2 r (set (pre @ a # post) \<union> set cs)
      \<and> vec h2 a = (if rv then flip (vec h a) else vec h a)
      \<and> map (vec h2) (pre @ post) = map (vec h) (pre @ post)
      \<and> map (vec h2) cs = map (vec h) cs"
  proof (cases cs)
    case Nil
    with assms(1) have c: "chain = None" by (simp add: opt_inv_def)
    then have h2: "h2 = ?h1" by (simp add: h2_def place_def)
    from opt_inv_first [of h r pre a post rv] assms(1) Nil c tk f1 v1
    show ?thesis
      unfolding h2 by (simp add: placed_def)
  next
    case (Cons c cs')
    with assms(1) have c: "chain = Some (c, last cs)" by (simp add: opt_inv_def)
    define t where "t = last cs"
    have h2: "h2 = append_node ?h1 t a" by (simp add: h2_def place_def c t_def)
    have tin: "t \<in> set cs" unfolding t_def using Cons by (intro last_in_set) simp
    with dj have ta: "t \<noteq> a" by auto
    note f = append_node_facts [OF ta]
    have f2: "frame ?h1 h2 r (set ?as \<union> set cs)"
      unfolding h2 frame_def using tin by (auto simp: f)
    from opt_inv_next [of h r pre a post c cs' t rv] assms(1) Cons c
    have "opt_inv h2 r (pre @ post) (cs @ [a]) (placed chain a)"
      by (simp add: h2 placed_def t_def)
    moreover have "frame h h2 r (set ?as \<union> set cs)" by (rule frame_trans [OF f1 f2])
    moreover have "vec h2 a = (if rv then flip (vec h a) else vec h a)"
      using tk(3) by (simp add: h2 f)
    moreover have "map (vec h2) (pre @ post) = map (vec h) (pre @ post)"
      using tk(2) by (simp add: h2 f)
    moreover have "map (vec h2) cs = map (vec h) cs"
      using v1 by (simp add: h2 f)
    ultimately show ?thesis
      by simp
  qed
  from all show "opt_inv h2 r (pre @ post) (cs @ [a]) (placed chain a)"
    and "frame h h2 r (set (pre @ a # post) \<union> set cs)"
    and "vec h2 a = (if rv then flip (vec h a) else vec h a)"
    and "map (vec h2) (pre @ post) = map (vec h) (pre @ post)"
    and "map (vec h2) cs = map (vec h) cs"
    by simp_all
qed

lemma optimize_mem_loop_refines:
  assumes "opt_inv h r as cs chain"
  shows "case optimize_loop_list (map (vec h) as) (map (vec h) cs) cx cy of
           Inl e \<Rightarrow> optimize_loop h r chain cx cy = Some (Inl e)
         | Inr (vals, ex, ey) \<Rightarrow>
             (\<exists>h' cs' chain'.
                optimize_loop h r chain cx cy = Some (Inr (h', chain', ex, ey))
                \<and> opt_inv h' r [] cs' chain' \<and> map (vec h') cs' = vals
                \<and> set cs' = set as \<union> set cs
                \<and> frame h h' r (set as \<union> set cs))"
  using assms
proof (induction "length as" arbitrary: h as cs chain cx cy)
  case 0
  then have as: "as = []" by simp
  with "0.prems" have "load h r = None" by (simp add: opt_inv_def wf_list_def)
  from optimize_mem_loop_empty [OF this] "0.prems" show ?case
    by (auto simp: as optimize_loop_list.simps frame_refl)
next
  case (Suc n)
  from Suc.hyps(2) obtain p as' where as: "as = p # as'" by (cases as) auto
  from Suc.prems have w: "wf_list h r as" by (simp add: opt_inv_def)
  with as have lp: "load h r = Some p" by (simp add: wf_list_def)
  note rf = vector_find_closest_mem_refines [OF w, of cx cy, unfolded lp]
  show ?case
  proof (cases "vector_find_closest_list (map (vec h) as) cx cy")
    case None
    with rf have "vector_find_closest h (Some p) cx cy = Some (h, None)" by simp
    from optimize_mem_loop_abort [OF lp this]
    have "optimize_loop h r chain cx cy = Some (Inl Abort)" .
    moreover have "optimize_loop_list (map (vec h) as) (map (vec h) cs) cx cy = Inl Abort"
      using None as by (subst optimize_loop_list.simps) simp
    ultimately show ?thesis by simp
  next
    case (Some br)
    obtain b rest where br: "br = (b, rest)" by (cases br) auto
    from rf Some br obtain pre a post rv
      where d: "as = pre @ a # post"
        and m: "vector_find_closest h (Some p) cx cy = Some (take_node h a rv, Some a)"
        and b: "b = (if rv then flip (vec h a) else vec h a)"
        and rest: "rest = map (vec h) (pre @ post)"
      by auto
    define h2 where "h2 = place (take_node h a rv) chain a"
    note st = opt_inv_step [of h r pre a post cs chain rv, folded h2_def, OF Suc.prems [unfolded d]]
    from optimize_mem_loop_step [OF lp m, of chain]
    have ml: "optimize_loop h r chain cx cy
                = optimize_loop h2 r (placed chain a) (x2 b) (y2 b)"
      using st(3) b by (simp add: h2_def [symmetric] vec_sel [symmetric] del: vec_sel)
    have ll: "optimize_loop_list (map (vec h) as) (map (vec h) cs) cx cy
                = optimize_loop_list (map (vec h2) (pre @ post)) (map (vec h2) (cs @ [a])) (x2 b) (y2 b)"
    proof -
      have "vec h2 a = b" using st(3) b by simp
      then have 1: "map (vec h2) (cs @ [a]) = map (vec h) cs @ [b]"
        unfolding map_append st(5) by simp
      have 2: "map (vec h2) (pre @ post) = rest" unfolding st(4) rest ..
      have "optimize_loop_list (map (vec h) as) (map (vec h) cs) cx cy
                       = optimize_loop_list rest (map (vec h) cs @ [b]) (x2 b) (y2 b)"
        using Some br as by (subst optimize_loop_list.simps) simp
      then show ?thesis unfolding 1 2 .
    qed
    from Suc.hyps(2) d have n: "n = length (pre @ post)" by simp
    note ih = Suc.hyps(1) [OF n st(1), of "x2 b" "y2 b"]
    have sets: "set (pre @ post) \<union> set (cs @ [a]) = set as \<union> set cs"
      using d by auto
    show ?thesis
      unfolding ll ml using ih st(2) d
      by (auto simp: sets split: sum.splits dest: frame_trans)
  qed
qed

lemma finish_chain_wf:
  assumes "opt_inv h r [] cs chain"
  shows "wf_list (finish_chain h r (map_option fst chain)) r cs"
    and "frame h (finish_chain h r (map_option fst chain)) r (set cs)"
    and "load (finish_chain h r (map_option fst chain)) r = map_option fst chain"
    and "map (vec (finish_chain h r (map_option fst chain))) cs = map (vec h) cs"
proof -
  let ?h' = "finish_chain h r (map_option fst chain)"
  note f = finish_chain_facts
  show "load ?h' r = map_option fst chain" by (simp add: f)
  show "map (vec ?h') cs = map (vec h) cs" by (simp add: f)
  show "wf_list ?h' r cs"
  proof (cases cs)
    case Nil
    with assms show ?thesis by (simp add: opt_inv_def wf_list_def f)
  next
    case (Cons c cs')
    with assms have c: "chain = Some (c, last cs)" and dl: "dll h (NextOf c) cs'"
      and di: "distinct (c # cs')" and rn: "r \<notin> NextOf ` set (c # cs')"
      by (simp_all add: opt_inv_def)
    have "dll ?h' (NextOf c) cs' = dll h (NextOf c) cs'"
      using di rn by (intro dll_cong) (auto simp: f c)
    with dl di rn Cons show ?thesis
      by (simp add: wf_list_def f c)
  qed
  show "frame h ?h' r (set cs)"
  proof (cases cs)
    case Nil
    with assms show ?thesis by (simp add: opt_inv_def frame_def f)
  next
    case (Cons c cs')
    with assms have c: "chain = Some (c, last cs)" by (simp add: opt_inv_def)
    with Cons show ?thesis by (auto simp: frame_def f)
  qed
qed

lemma vector_optimize_mem_refines:
  assumes "wf_list h r as"
  shows "case vector_optimize_list (map (vec h) as) cx cy of
           Inl e \<Rightarrow> vector_optimize h r cx cy = Some (Inl e)
         | Inr (vals, ex, ey) \<Rightarrow>
             (\<exists>h' cs. vector_optimize h r cx cy = Some (Inr (h', load h' r, ex, ey))
                \<and> wf_list h' r cs \<and> map (vec h') cs = vals \<and> set cs = set as
                \<and> frame h h' r (set as))"
proof -
  from assms have inv: "opt_inv h r as [] None" by (simp add: opt_inv_def)
  note rf = optimize_mem_loop_refines [OF inv, of cx cy]
  show ?thesis
  proof (cases "vector_optimize_list (map (vec h) as) cx cy")
    case (Inl e)
    with rf show ?thesis by (simp add: vector_optimize_list_def vector_optimize_def)
  next
    case (Inr res)
    obtain vals ex ey where res: "res = (vals, ex, ey)" by (cases res) auto
    from rf Inr res obtain h1 cs chain
      where m: "optimize_loop h r None cx cy = Some (Inr (h1, chain, ex, ey))"
        and i1: "opt_inv h1 r [] cs chain" and v: "map (vec h1) cs = vals"
        and st: "set cs = set as" and fr: "frame h h1 r (set as)"
      by (auto simp: vector_optimize_list_def)
    let ?h' = "finish_chain h1 r (map_option fst chain)"
    note fc = finish_chain_wf [OF i1]
    from m have "vector_optimize h r cx cy = Some (Inr (?h', load ?h' r, ex, ey))"
      by (simp add: vector_optimize_def fc(3))
    moreover have "frame h ?h' r (set as)"
      using frame_trans [OF fr] fc(2) st by simp
    ultimately show ?thesis using Inr res fc(1) fc(4) v st by auto
  qed
qed

lemma transit_len_mem_loop_refines:
  "path h p as \<Longrightarrow>
     transit_len_loop h p lx ly s = Some (transit_len_loop_list (map (vec h) as) lx ly s)"
proof (induction as arbitrary: p lx ly s)
  case Nil
  then show ?case by (simp add: transit_len_loop.simps)
next
  case (Cons a as)
  from Cons.prems have p: "p = Some a" and n: "path h (nextp (nodes h a)) as" by simp_all
  show ?case
    unfolding p by (subst transit_len_loop.simps) (simp add: Let_def Cons.IH [OF n])
qed

lemma longest_transit_mem_loop_refines:
  assumes "path h p as" and "as = drop i all" and "tv = map_option ((!) all) ti"
  shows "longest_transit_loop h p cx cy m tv =
     Some (case longest_transit_loop_list (map (vec h) as) i cx cy m ti of
             (m', ti') \<Rightarrow> (m', map_option ((!) all) ti'))"
  using assms
proof (induction as arbitrary: p i cx cy m tv ti)
  case Nil
  then show ?case by (simp add: longest_transit_loop.simps)
next
  case (Cons a as)
  from Cons.prems(1) have p: "p = Some a" and n: "path h (nextp (nodes h a)) as" by simp_all
  from Cons.prems(2) have a: "all ! i = a" and d: "as = drop (Suc i) all"
    by (metis nth_via_drop, metis drop_Suc tl_drop list.sel(3))
  have sa: "Some a = map_option ((!) all) (Some i)" using a by simp
  note ih = Cons.IH [OF n d]
  show ?case
    unfolding p
    by (subst longest_transit_loop.simps)
       (simp add: Let_def ih [OF sa] ih [OF Cons.prems(3)])
qed

lemma closest_mem_loop_refines:
  assumes "path h p (drop i all)" and "distinct all" and "i \<le> t" and "t < length all"
    and "cl = map_option ((!) all) cli"
  shows "closest_loop h p (all ! t) md cl =
     Some (case closest_loop_list (map (vec h) (drop i (take t all))) i (vec h (all ! t)) md cli of
             (md', cl') \<Rightarrow> (md', map_option ((!) all) cl'))"
  using assms
proof (induction "t - i" arbitrary: p i md cl cli)
  case 0
  then have it: "i = t" by simp
  with "0.prems" have "p = Some (all ! t)"
    by (metis Cons_nth_drop_Suc path.simps(2))
  with it "0.prems"(5) show ?case
    by (subst closest_loop.simps) simp
next
  case (Suc n)
  from Suc.hyps(2) Suc.prems have i: "i < t" "i < length all" by simp_all
  then have dr: "drop i all = all ! i # drop (Suc i) all"
    by (simp add: Cons_nth_drop_Suc)
  with Suc.prems(1) have p: "p = Some (all ! i)"
    and n: "path h (nextp (nodes h (all ! i))) (drop (Suc i) all)"
    by simp_all
  from i Suc.prems(2,4) have ne: "all ! i \<noteq> all ! t"
    by (simp add: nth_eq_iff_index_eq)
  from i have dt: "drop i (take t all) = all ! i # drop (Suc i) (take t all)"
    by (metis Cons_nth_drop_Suc length_take min_less_iff_conj nth_take)
  have sa: "Some (all ! i) = map_option ((!) all) (Some i)" by simp
  from Suc.hyps(2) have m: "n = t - Suc i" by simp
  from i have le: "Suc i \<le> t" by simp
  note ih = Suc.hyps(1) [OF m n Suc.prems(2) le Suc.prems(4)]
  show ?case
    unfolding p dt
    by (subst closest_loop.simps)
       (simp add: ne Let_def ih [OF sa] ih [OF Suc.prems(5)])
qed

lemma remove_node_facts:
  assumes "prevp (nodes h t) = Some s" and "s \<noteq> NextOf t" and "nextp (nodes h t) \<noteq> Some t"
  shows "load (remove_node h t) s' = (if s' = s then nextp (nodes h t) else load h s')"
    and "prevp (nodes (remove_node h t) x) =
           (if nextp (nodes h t) = Some x then Some s else prevp (nodes h x))"
    and "vec (remove_node h t) x = vec h x"
  using assms
  by (cases s; cases s'; cases "nextp (nodes h t)";
      auto simp: load_simps remove_node_def store_def Let_def vec_def vector.truncate_def)+

lemma insert_after_facts:
  assumes "c \<noteq> t" and "nextp (nodes h c) \<noteq> Some t"
  shows "load (insert_after h c t) s' =
           (if s' = NextOf c then Some t else if s' = NextOf t then nextp (nodes h c)
            else load h s')"
    and "prevp (nodes (insert_after h c t) x) =
           (if nextp (nodes h c) = Some x then Some (NextOf t)
            else if x = t then Some (NextOf c) else prevp (nodes h x))"
    and "vec (insert_after h c t) x = vec h x"
  using assms
  by (cases s'; cases "nextp (nodes h c)";
      auto simp: load_simps insert_after_def Let_def vec_def vector.truncate_def)+

lemma dll_remove_node:
  assumes "dll h r (pre @ a # post)" and "distinct (pre @ a # post)"
    and "r \<notin> NextOf ` set (pre @ a # post)"
  shows "dll (remove_node h a) r (pre @ post)"
proof -
  from dll_self(1) [OF assms] obtain s
    where pa: "prevp (nodes h a) = Some s" and ne: "s \<noteq> NextOf a" by blast
  from dll_self(2) [OF assms] have nn: "nextp (nodes h a) \<noteq> Some a"
    by (simp add: load_simps)
  note f = remove_node_facts [OF pa ne nn]
  show ?thesis
    by (rule dll_without [OF assms]) (auto simp: f pa load_simps)
qed

lemma dll_insert_after:
  assumes "dll h r (pre @ c # post)" and "distinct (t # pre @ c # post)"
    and "r \<notin> NextOf ` set (t # pre @ c # post)"
  shows "dll (insert_after h c t) r (pre @ c # t # post)"
proof -
  from assms(2) have ct: "c \<noteq> t" by auto
  from dll_next_of [OF assms(1)] assms(2) have nt: "nextp (nodes h c) \<noteq> Some t"
    by (cases post) (auto simp: load_simps)
  note f = insert_after_facts [OF ct nt]
  have nc: "load h (NextOf c) = Some x \<Longrightarrow> x \<in> set post" for x
    using dll_next_of [OF assms(1)] by (cases post) auto
  let ?h' = "insert_after h c t"
  show ?thesis
    using assms
  proof (induction pre arbitrary: r)
    case Nil
    then have lc: "load h r = Some c" and pc: "prevp (nodes h c) = Some r"
      and tl: "dll h (NextOf c) post" and di: "distinct (t # c # post)"
      and rn: "r \<notin> NextOf ` set (t # c # post)"
      by auto
    from rn have 1: "load ?h' r = Some c" using lc by (auto simp: f)
    from di nc have 2: "prevp (nodes ?h' c) = Some r"
      using pc ct by (auto simp: f load_simps)
    have 3: "load ?h' (NextOf c) = Some t" by (simp add: f)
    have 4: "prevp (nodes ?h' t) = Some (NextOf c)" using nt by (simp add: f)
    have 5: "dll ?h' (NextOf t) post"
    proof (cases post)
      case Nil
      with tl have "nextp (nodes h c) = None" by (simp add: load_simps)
      with Nil ct show ?thesis by (simp add: f)
    next
      case (Cons d post')
      with tl have ld: "nextp (nodes h c) = Some d" and t2: "dll h (NextOf d) post'"
        and pd: "prevp (nodes h d) = Some (NextOf c)"
        by (simp_all add: load_simps)
      from Cons di have dd: "d \<noteq> c" "d \<noteq> t" "d \<notin> set post'" "c \<notin> set post'"
        "t \<notin> set post'"
        by auto
      have "dll ?h' (NextOf d) post' = dll h (NextOf d) post'"
      proof (intro dll_cong ballI conjI)
        show "load ?h' (NextOf d) = load h (NextOf d)" using dd by (simp add: f)
      next
        fix x assume "x \<in> set post'"
        with dd have x: "x \<noteq> c" "x \<noteq> t" "x \<noteq> d" by auto
        then show "load ?h' (NextOf x) = load h (NextOf x)" by (simp add: f)
        from x show "prevp (nodes ?h' x) = prevp (nodes h x)" using ld by (simp add: f)
      qed
      with t2 have "dll ?h' (NextOf d) post'" by simp
      moreover have "load ?h' (NextOf t) = Some d" using ct ld by (simp add: f)
      moreover have "prevp (nodes ?h' d) = Some (NextOf t)" using ld by (simp add: f)
      ultimately show ?thesis using Cons by simp
    qed
    from 1 2 3 4 5 show ?case by simp
  next
    case (Cons b pre)
    then have lb: "load h r = Some b" and pb: "prevp (nodes h b) = Some r"
      and tl: "dll h (NextOf b) (pre @ c # post)" and di: "distinct (t # pre @ c # post)"
      and bn: "b \<notin> set (t # pre @ c # post)"
      and rn: "r \<notin> NextOf ` set (t # b # pre @ c # post)"
      by auto
    from bn have nb: "NextOf b \<notin> NextOf ` set (t # pre @ c # post)" by auto
    from Cons.IH [OF tl di nb] have ih: "dll ?h' (NextOf b) (pre @ c # t # post)" .
    from rn have "load ?h' r = Some b" using lb by (auto simp: f)
    moreover have "prevp (nodes ?h' b) = Some r"
      using pb bn nc by (auto simp: f load_simps)
    ultimately show ?case using ih by simp
  qed
qed

lemma last_ref_Cons: "last_ref r (a # as) = last_ref (NextOf a) as"
  by (simp add: last_ref_def)

lemma dll_append: "dll h r (xs @ ys) = (seg h r xs \<and> dll h (last_ref r xs) ys)"
proof (induction xs arbitrary: r)
  case Nil
  then show ?case by (simp add: last_ref_def)
next
  case (Cons a xs)
  then show ?case by (simp add: last_ref_Cons)
qed

lemma seg_cong:
  assumes "xs \<noteq> [] \<longrightarrow> load h' r = load h r"
    and "\<forall>x\<in>set (butlast xs). load h' (NextOf x) = load h (NextOf x)"
    and "\<forall>x\<in>set xs. prevp (nodes h' x) = prevp (nodes h x)"
  shows "seg h' r xs = seg h r xs"
  using assms
proof (induction xs arbitrary: r)
  case Nil
  then show ?case by simp
next
  case (Cons a xs)
  have "seg h' (NextOf a) xs = seg h (NextOf a) xs"
    using Cons.prems by (intro Cons.IH) (auto split: if_splits)
  with Cons.prems show ?case by simp
qed

lemma relink_wf:
  assumes w: "wf_list h r (A @ c # B @ t # C)"
  defines "h2 \<equiv> insert_after (remove_node h t) c t"
  shows "wf_list h2 r (A @ c # t # B @ C)"
    and "wf_list h2 (NextOf t) (B @ C)"
    and "vec h2 x = vec h x"
proof -
  let ?as = "A @ c # B @ t # C"
  from w have d: "dll h r ((A @ c # B) @ t # C)" and di: "distinct ((A @ c # B) @ t # C)"
    and rn: "r \<notin> NextOf ` set ((A @ c # B) @ t # C)"
    by (simp_all add: wf_list_def)
  from dll_self(1) [OF d di rn] obtain s
    where pa: "prevp (nodes h t) = Some s" and ne: "s \<noteq> NextOf t" by blast
  from dll_self(2) [OF d di rn] have nn: "nextp (nodes h t) \<noteq> Some t"
    by (simp add: load_simps)
  note f1 = remove_node_facts [OF pa ne nn]
  let ?h1 = "remove_node h t"
  from dll_remove_node [OF d di rn] have d1: "dll ?h1 r (A @ c # (B @ C))" by simp
  from di have di1: "distinct (t # A @ c # (B @ C))" by auto
  from rn have rn1: "r \<notin> NextOf ` set (t # A @ c # (B @ C))" by auto
  from dll_insert_after [OF d1 di1 rn1] have d2: "dll h2 r (A @ c # t # B @ C)"
    by (simp add: h2_def)
  from di have ct: "c \<noteq> t" by auto
  from di have tn: "t \<notin> set (B @ C)" by auto
  have nt: "nextp (nodes ?h1 c) \<noteq> Some t"
  proof (cases "B @ C")
    case Nil
    with dll_next_of [OF d1] show ?thesis by (simp add: load_simps)
  next
    case (Cons b l)
    have "b \<in> set (B @ C)" unfolding Cons by simp
    with tn have "b \<noteq> t" by auto
    with dll_next_of [OF d1] Cons show ?thesis by (simp add: load_simps)
  qed
  note f2 = insert_after_facts [OF ct nt]
  show "vec h2 x = vec h x" by (simp add: h2_def f1 f2)
  from d2 di rn show "wf_list h2 r (A @ c # t # B @ C)"
    by (auto simp: wf_list_def)
  from d2 have "dll h2 r ((A @ [c, t]) @ (B @ C))" by simp
  then have "dll h2 (last_ref r (A @ [c, t])) (B @ C)"
    unfolding dll_append by simp
  then have "dll h2 (NextOf t) (B @ C)" by (simp add: last_ref_def)
  with di show "wf_list h2 (NextOf t) (B @ C)" by (auto simp: wf_list_def)
qed

lemma resort_wf:
  assumes w: "wf_list h2 r (A @ c # t # D)"
    and w3: "wf_list h3 (NextOf t) cs" and st: "set cs = set D"
    and fr: "frame h2 h3 (NextOf t) (set D)"
  shows "wf_list h3 r (A @ c # t # cs)"
    and "map (vec h3) (A @ [c, t]) = map (vec h2) (A @ [c, t])"
    and "load h3 r = load h2 r"
proof -
  from w have d: "dll h2 r ((A @ [c, t]) @ D)" and di: "distinct (A @ c # t # D)"
    and rn: "r \<notin> NextOf ` set (A @ c # t # D)"
    by (simp_all add: wf_list_def)
  from d have sg: "seg h2 r (A @ [c, t])" unfolding dll_append by simp
  from rn have rt: "r \<noteq> NextOf t" by auto
  have "seg h3 r (A @ [c, t]) = seg h2 r (A @ [c, t])"
  proof (intro seg_cong impI ballI)
    show "load h3 r = load h2 r" using fr rn rt by (auto simp: frame_def)
  next
    fix x assume "x \<in> set (butlast (A @ [c, t]))"
    then have "x \<in> set (A @ [c])" by (simp add: butlast_append)
    with di have "NextOf x \<noteq> NextOf t" "NextOf x \<notin> NextOf ` set D" by auto
    with fr show "load h3 (NextOf x) = load h2 (NextOf x)" by (simp add: frame_def)
  next
    fix x assume "x \<in> set (A @ [c, t])"
    with di have "x \<notin> set D" by auto
    with fr show "prevp (nodes h3 x) = prevp (nodes h2 x)" by (simp add: frame_def)
  qed
  with sg have sg3: "seg h3 r (A @ [c, t])" by simp
  from w3 have "dll h3 (last_ref r (A @ [c, t])) cs" by (simp add: wf_list_def last_ref_def)
  with sg3 have "dll h3 r ((A @ [c, t]) @ cs)" unfolding dll_append by simp
  moreover from w3 di st have "distinct (A @ c # t # cs)" by (auto simp: wf_list_def)
  moreover from rn st have "r \<notin> NextOf ` set (A @ c # t # cs)" by auto
  ultimately show "wf_list h3 r (A @ c # t # cs)" by (simp add: wf_list_def)
  from fr di show "map (vec h3) (A @ [c, t]) = map (vec h2) (A @ [c, t])"
    by (auto simp: frame_def)
  show "load h3 r = load h2 r" using fr rn rt by (auto simp: frame_def)
qed

lemma refine_mem_loops:
  assumes w: "wf_list h r as"
  shows "vector_transit_len h (load h r) = Some (vector_transit_len_list (map (vec h) as))"
    and "\<exists>m. longest_transit_loop h (load h r) cx cy 0 None
               = Some (m, map_option ((!) as) (longest_transit_list (map (vec h) as) cx cy))"
    and "t < length as \<Longrightarrow>
           \<exists>md. closest_loop h (load h r) (as ! t) (round_double 1000000000) None
                  = Some (md, map_option ((!) as) (closest_prior_list (map (vec h) as) t))"
proof -
  let ?V = "map (vec h) as"
  from w have d: "dll h r as" and di: "distinct as" by (simp_all add: wf_list_def)
  note pt = dll_path [OF d]
  show "vector_transit_len h (load h r) = Some (vector_transit_len_list ?V)"
    by (simp add: vector_transit_len_def vector_transit_len_list_def
        transit_len_mem_loop_refines [OF pt])
  obtain m ti where ll: "longest_transit_loop_list ?V 0 cx cy 0 None = (m, ti)"
    by (cases "longest_transit_loop_list ?V 0 cx cy 0 None") auto
  then have lt: "longest_transit_list ?V cx cy = ti" by (simp add: longest_transit_list_def)
  from longest_transit_mem_loop_refines [OF pt, of 0 as None None cx cy 0]
  show "\<exists>m. longest_transit_loop h (load h r) cx cy 0 None
               = Some (m, map_option ((!) as) (longest_transit_list ?V cx cy))"
    by (simp add: ll lt)
  assume t: "t < length as"
  obtain md ci
    where cl: "closest_loop_list (map (vec h) (take t as)) 0 (vec h (as ! t)) (round_double 1000000000) None
                 = (md, ci)"
    by (cases "closest_loop_list (map (vec h) (take t as)) 0 (vec h (as ! t)) (round_double 1000000000) None")
       auto
  with t have cp: "closest_prior_list ?V t = ci"
    by (simp add: closest_prior_list_def take_map)
  from closest_mem_loop_refines [of h "load h r" 0 as t None None "round_double 1000000000"] pt di t
  show "\<exists>md. closest_loop h (load h r) (as ! t) (round_double 1000000000) None
                  = Some (md, map_option ((!) as) (closest_prior_list ?V t))"
    by (simp add: cl cp)
qed

lemma vector_refine_mem_relinks:
  assumes w: "wf_list h r as"
    and ltt: "longest_transit_list (map (vec h) as) cx cy = Some t"
    and cpc: "closest_prior_list (map (vec h) as) t = Some c"
  shows "c < t" and "t < length as"
    and "as = take c as @ as ! c # drop (Suc c) (take t as) @ as ! t # drop (Suc t) as"
    and "case vector_optimize_list (map (vec h) (drop (Suc c) (take t as) @ drop (Suc t) as))
                (x2 (nodes h (as ! t))) (y2 (nodes h (as ! t))) of
           Inl e \<Rightarrow>
             vector_refine h (load h r) cx cy = Some (Inl e)
             \<and> vector_refine_list (map (vec h) as) cx cy = Inl e
         | Inr (vals, ex, ey) \<Rightarrow>
             (\<exists>h' cs red.
                vector_refine h (load h r) cx cy = Some (Inr (h', ex, ey, red))
                \<and> vector_refine_list (map (vec h) as) cx cy
                    = Inr (map (vec h) (take c as @ [as ! c, as ! t]) @ vals, ex, ey, red)
                \<and> wf_list h' r (take c as @ as ! c # as ! t # cs)
                \<and> map (vec h') (take c as @ [as ! c, as ! t])
                    = map (vec h) (take c as @ [as ! c, as ! t])
                \<and> map (vec h') cs = vals
                \<and> set cs = set (drop (Suc c) (take t as) @ drop (Suc t) as)
                \<and> load h' r = load h r)"
proof -
  let ?V = "map (vec h) as"
  from w have d: "dll h r as" and di: "distinct as" by (simp_all add: wf_list_def)
  from longest_transit_index [OF ltt] show t: "t < length as" by simp
  from closest_prior_Some [of t ?V c] cpc t show ct: "c < t" by simp
  note lp = refine_mem_loops [OF w]
  from lp(2) [of cx cy] ltt obtain m
    where ml: "longest_transit_loop h (load h r) cx cy 0 None = Some (m, Some (as ! t))"
    by auto
  from lp(3) [OF t] cpc obtain md
    where mc: "closest_loop h (load h r) (as ! t) (round_double 1000000000) None = Some (md, Some (as ! c))"
    by auto
  note ini = lp(1)
  define A where "A = take c as"
  define B where "B = drop (Suc c) (take t as)"
  define C where "C = drop (Suc t) as"
  define cN where "cN = as ! c"
  define tN where "tN = as ! t"
  have tk: "take t as = A @ cN # B"
  proof -
    have "c < length (take t as)" using ct t by simp
    from id_take_nth_drop [OF this] show ?thesis
      using ct by (simp add: A_def B_def cN_def min_def)
  qed
  have as: "as = A @ cN # B @ tN # C"
    using id_take_nth_drop [OF t] tk by (simp add: tN_def C_def)
  then show "as = take c as @ as ! c # drop (Suc c) (take t as) @ as ! t # drop (Suc t) as"
    by (simp only: A_def B_def C_def cN_def tN_def)
  define h2 where "h2 = insert_after (remove_node h tN) cN tN"
  note rw = relink_wf [OF w [unfolded as], folded h2_def]
  have vA: "take (Suc c) ?V = map (vec h) (A @ [cN])"
    using ct t by (simp add: A_def cN_def take_map take_Suc_conv_app_nth)
  have vT: "?V ! t = vec h tN" using t by (simp add: tN_def)
  have vD: "drop (Suc c) (take t ?V) @ drop (Suc t) ?V = map (vec h2) (B @ C)"
    by (simp add: rw(3) B_def C_def take_map drop_map)
  have x2: "x2 (nodes h2 tN) = x2 (?V ! t)" "y2 (nodes h2 tN) = y2 (?V ! t)"
    using rw(3) [of tN] vT by (simp_all add: vec_sel [symmetric] del: vec_sel)
  have x2h: "x2 (nodes h2 tN) = x2 (nodes h tN)" "y2 (nodes h2 tN) = y2 (nodes h tN)"
    using rw(3) [of tN] by (simp_all add: vec_sel [symmetric] del: vec_sel)
  have mh: "map (vec h2) (B @ C) = map (vec h) (B @ C)" by (simp add: rw(3))
  note rl = vector_refine_relink [OF ltt cpc, unfolded vD x2 [symmetric]]
  note om = vector_optimize_mem_refines [OF rw(2), of "x2 (nodes h2 tN)" "y2 (nodes h2 tN)"]
  have mem: "vector_refine h (load h r) cx cy =
      (case vector_optimize h2 (NextOf tN) (x2 (nodes h2 tN)) (y2 (nodes h2 tN)) of
         None \<Rightarrow> None
       | Some (Inl e) \<Rightarrow> Some (Inl e)
       | Some (Inr (h3, vs, ex, ey)) \<Rightarrow>
           (case vector_transit_len h3 (load h r) of
              None \<Rightarrow> None
            | Some new_transit_len \<Rightarrow>
                Some (Inr (h3, ex, ey, vector_transit_len_list ?V - new_transit_len))))"
    using ini ml mc
    by (simp add: vector_refine_def Let_def h2_def tN_def cN_def)
  have "case vector_optimize_list (map (vec h2) (B @ C)) (x2 (nodes h2 tN)) (y2 (nodes h2 tN)) of
           Inl e \<Rightarrow>
             vector_refine h (load h r) cx cy = Some (Inl e)
             \<and> vector_refine_list ?V cx cy = Inl e
         | Inr (vals, ex, ey) \<Rightarrow>
             (\<exists>h' cs red.
                vector_refine h (load h r) cx cy = Some (Inr (h', ex, ey, red))
                \<and> vector_refine_list ?V cx cy = Inr (map (vec h) (A @ [cN, tN]) @ vals, ex, ey, red)
                \<and> wf_list h' r (A @ cN # tN # cs)
                \<and> map (vec h') (A @ [cN, tN]) = map (vec h) (A @ [cN, tN])
                \<and> map (vec h') cs = vals
                \<and> set cs = set (B @ C)
                \<and> load h' r = load h r)"
  proof (cases "vector_optimize_list (map (vec h2) (B @ C)) (x2 (nodes h2 tN)) (y2 (nodes h2 tN))")
    case (Inl e)
    with om rl mem show ?thesis by simp
  next
    case (Inr res)
    obtain vals ex ey where res: "res = (vals, ex, ey)" by (cases res) auto
    from om Inr res obtain h3 cs
      where o: "vector_optimize h2 (NextOf tN) (x2 (nodes h2 tN)) (y2 (nodes h2 tN))
                  = Some (Inr (h3, load h3 (NextOf tN), ex, ey))"
        and w3: "wf_list h3 (NextOf tN) cs" and v3: "map (vec h3) cs = vals"
        and st: "set cs = set (B @ C)" and fr: "frame h2 h3 (NextOf tN) (set (B @ C))"
      by auto
    note rs = resort_wf [OF rw(1) w3 st fr]
    have l3: "load h3 r = load h r"
    proof -
      from rw(1) have "load h2 r = Some (hd (A @ [cN]))"
        by (cases A) (simp_all add: wf_list_def)
      moreover from d as have "load h r = Some (hd (A @ [cN]))"
        by (cases A) simp_all
      ultimately show ?thesis using rs(3) by simp
    qed
    let ?as' = "A @ cN # tN # cs"
    have pre: "map (vec h3) (A @ [cN, tN]) = map (vec h) (A @ [cN, tN])"
      using rs(2) by (simp add: rw(3))
    have vals': "map (vec h3) ?as' = take (Suc c) ?V @ ?V ! t # vals"
      using rs(2) v3 by (simp add: vA vT rw(3))
    have vals'': "take (Suc c) ?V @ ?V ! t # vals = map (vec h) (A @ [cN, tN]) @ vals"
      by (simp add: vA vT)
    from rs(1) have "path h3 (load h3 r) ?as'"
      by (intro dll_path) (simp add: wf_list_def)
    then have nl: "vector_transit_len h3 (load h r)
                     = Some (vector_transit_len_list (map (vec h3) ?as'))"
      unfolding l3
      by (simp only: vector_transit_len_def vector_transit_len_list_def
          transit_len_mem_loop_refines)
    from mem o nl
    have 1: "vector_refine h (load h r) cx cy
            = Some (Inr (h3, ex, ey,
                vector_transit_len_list ?V - vector_transit_len_list (map (vec h3) ?as')))"
      by simp
    from rl Inr res
    have "vector_refine_list ?V cx cy
            = Inr (take (Suc c) ?V @ ?V ! t # vals, ex, ey,
                vector_transit_len_list ?V
                  - vector_transit_len_list (take (Suc c) ?V @ ?V ! t # vals))"
      by simp
    then have 2: "vector_refine_list ?V cx cy
            = Inr (map (vec h) (A @ [cN, tN]) @ vals, ex, ey,
                vector_transit_len_list ?V - vector_transit_len_list (map (vec h3) ?as'))"
      unfolding vals' vals'' .
    have "\<exists>h' cs red.
            vector_refine h (load h r) cx cy = Some (Inr (h', ex, ey, red))
            \<and> vector_refine_list ?V cx cy = Inr (map (vec h) (A @ [cN, tN]) @ vals, ex, ey, red)
            \<and> wf_list h' r (A @ cN # tN # cs)
            \<and> map (vec h') (A @ [cN, tN]) = map (vec h) (A @ [cN, tN])
            \<and> map (vec h') cs = vals
            \<and> set cs = set (B @ C)
            \<and> load h' r = load h r"
      using 1 2 rs(1) pre v3 st l3 by blast
    then show ?thesis unfolding Inr res by simp
  qed
  then show "case vector_optimize_list (map (vec h) (drop (Suc c) (take t as) @ drop (Suc t) as))
                (x2 (nodes h (as ! t))) (y2 (nodes h (as ! t))) of
           Inl e \<Rightarrow>
             vector_refine h (load h r) cx cy = Some (Inl e)
             \<and> vector_refine_list (map (vec h) as) cx cy = Inl e
         | Inr (vals, ex, ey) \<Rightarrow>
             (\<exists>h' cs red.
                vector_refine h (load h r) cx cy = Some (Inr (h', ex, ey, red))
                \<and> vector_refine_list (map (vec h) as) cx cy
                    = Inr (map (vec h) (take c as @ [as ! c, as ! t]) @ vals, ex, ey, red)
                \<and> wf_list h' r (take c as @ as ! c # as ! t # cs)
                \<and> map (vec h') (take c as @ [as ! c, as ! t])
                    = map (vec h) (take c as @ [as ! c, as ! t])
                \<and> map (vec h') cs = vals
                \<and> set cs = set (drop (Suc c) (take t as) @ drop (Suc t) as)
                \<and> load h' r = load h r)"
    unfolding mh x2h by (simp only: A_def B_def C_def cN_def tN_def)
qed

lemma vector_refine_mem_unchanged:
  assumes w: "wf_list h r as"
    and "longest_transit_list (map (vec h) as) cx cy = None
         \<or> (\<exists>t. longest_transit_list (map (vec h) as) cx cy = Some t
                \<and> closest_prior_list (map (vec h) as) t = None)"
  shows "vector_refine h (load h r) cx cy = Some (Inr (h, cx, cy, 0))"
    and "vector_refine_list (map (vec h) as) cx cy = Inr (map (vec h) as, cx, cy, 0)"
proof -
  note lp = refine_mem_loops [OF w]
  from assms(2) show "vector_refine_list (map (vec h) as) cx cy = Inr (map (vec h) as, cx, cy, 0)"
    by (auto simp: vector_refine_list_def)
  from assms(2) show "vector_refine h (load h r) cx cy = Some (Inr (h, cx, cy, 0))"
  proof (elim disjE exE conjE)
    assume n: "longest_transit_list (map (vec h) as) cx cy = None"
    with lp(2) [of cx cy] obtain m
      where "longest_transit_loop h (load h r) cx cy 0 None = Some (m, None)" by auto
    with lp(1) show ?thesis by (simp add: vector_refine_def)
  next
    fix t assume s: "longest_transit_list (map (vec h) as) cx cy = Some t"
      and c: "closest_prior_list (map (vec h) as) t = None"
    from longest_transit_index [OF s] have t: "t < length as" by simp
    from lp(2) [of cx cy] s obtain m
      where "longest_transit_loop h (load h r) cx cy 0 None = Some (m, Some (as ! t))"
      by auto
    moreover from lp(3) [OF t] c obtain md
      where "closest_loop h (load h r) (as ! t) (round_double 1000000000) None = Some (md, None)"
      by auto
    ultimately show ?thesis using lp(1) by (simp add: vector_refine_def)
  qed
qed

lemma vector_refine_mem_refines:
  assumes w: "wf_list h r as"
  shows "case vector_refine_list (map (vec h) as) cx cy of
           Inl e \<Rightarrow> vector_refine h (load h r) cx cy = Some (Inl e)
         | Inr (vals, ex, ey, red) \<Rightarrow>
             (\<exists>h' as'. vector_refine h (load h r) cx cy = Some (Inr (h', ex, ey, red))
                \<and> wf_list h' r as' \<and> map (vec h') as' = vals \<and> set as' = set as
                \<and> load h' r = load h r)"
proof (cases "longest_transit_list (map (vec h) as) cx cy")
  case None
  then have u: "longest_transit_list (map (vec h) as) cx cy = None
         \<or> (\<exists>t. longest_transit_list (map (vec h) as) cx cy = Some t
                \<and> closest_prior_list (map (vec h) as) t = None)"
    by simp
  from vector_refine_mem_unchanged [OF w u] w show ?thesis by auto
next
  case (Some t)
  show ?thesis
  proof (cases "closest_prior_list (map (vec h) as) t")
    case None
    with Some have u: "longest_transit_list (map (vec h) as) cx cy = None
         \<or> (\<exists>t. longest_transit_list (map (vec h) as) cx cy = Some t
                \<and> closest_prior_list (map (vec h) as) t = None)"
      by simp
    from vector_refine_mem_unchanged [OF w u] w show ?thesis by auto
  next
    case c: (Some c)
    note rl = vector_refine_mem_relinks [OF w Some c]
    let ?D = "drop (Suc c) (take t as) @ drop (Suc t) as"
    show ?thesis
    proof (cases "vector_optimize_list (map (vec h) ?D) (x2 (nodes h (as ! t))) (y2 (nodes h (as ! t)))")
      case (Inl e)
      with rl(4) show ?thesis by simp
    next
      case (Inr res)
      obtain vals ex ey where res: "res = (vals, ex, ey)" by (cases res) auto
      from rl(4) Inr res obtain h' cs red
        where 1: "vector_refine h (load h r) cx cy = Some (Inr (h', ex, ey, red))"
          and 2: "vector_refine_list (map (vec h) as) cx cy
                    = Inr (map (vec h) (take c as @ [as ! c, as ! t]) @ vals, ex, ey, red)"
          and 3: "wf_list h' r (take c as @ as ! c # as ! t # cs)"
          and 4: "map (vec h') (take c as @ [as ! c, as ! t])
                    = map (vec h) (take c as @ [as ! c, as ! t])"
          and 5: "map (vec h') cs = vals"
          and 6: "set cs = set ?D"
          and 7: "load h' r = load h r"
        by auto
      have "set as = set (take c as @ as ! c # drop (Suc c) (take t as) @ as ! t # drop (Suc t) as)"
        using rl(3) by simp
      then have "set (take c as @ as ! c # as ! t # cs) = set as"
        unfolding 6 set_append list.set by blast
      moreover have "map (vec h') (take c as @ as ! c # as ! t # cs)
                       = map (vec h) (take c as @ [as ! c, as ! t]) @ vals"
        using 4 5 by simp
      ultimately have "\<exists>h' as'.
          vector_refine h (load h r) cx cy = Some (Inr (h', ex, ey, red))
          \<and> wf_list h' r as'
          \<and> map (vec h') as' = map (vec h) (take c as @ [as ! c, as ! t]) @ vals
          \<and> set as' = set as \<and> load h' r = load h r"
        using 1 3 7 by blast
      then show ?thesis unfolding 2 by simp
    qed
  qed
qed

lemma vector_create_mem_scan_refines:
  "dll h r as \<Longrightarrow>
     vector_create_scan h r ax ay bx by =
       Some (if vector_create_scan_list (map (vec h) as) ax ay bx by then None
             else Some (last_ref r as))"
proof (induction as arbitrary: r)
  case Nil
  then show ?case
    by (subst vector_create_scan.simps) (simp add: last_ref_def)
next
  case (Cons a as)
  from Cons.prems have l: "load h r = Some a" and n: "dll h (NextOf a) as" by simp_all
  show ?case
    by (subst vector_create_scan.simps)
       (auto simp: l Cons.IH [OF n] last_ref_Cons)
qed

lemma new_node_facts:
  assumes "iter \<noteq> NextOf v"
  shows "load (new_node h iter v ax ay bx by) s =
           (if s = iter then Some v else if s = NextOf v then None else load h s)"
    and "prevp (nodes (new_node h iter v ax ay bx by) x) =
           (if x = v then Some iter else prevp (nodes h x))"
    and "vec (new_node h iter v ax ay bx by) x =
           (if x = v then \<lparr>x1 = ax, y1 = ay, x2 = bx, y2 = by\<rparr> else vec h x)"
  using assms
  by (cases s; cases iter;
      auto simp: load_simps new_node_def store_def Let_def vec_def vector.truncate_def)+

lemma wf_new_node:
  assumes w: "wf_list h r as" and v: "v \<notin> set as" and rv: "r \<noteq> NextOf v"
  shows "wf_list (new_node h (last_ref r as) v ax ay bx by) r (as @ [v])"
    and "map (vec (new_node h (last_ref r as) v ax ay bx by)) (as @ [v])
           = map (vec h) as @ [\<lparr>x1 = ax, y1 = ay, x2 = bx, y2 = by\<rparr>]"
proof -
  let ?it = "last_ref r as"
  let ?h' = "new_node h ?it v ax ay bx by"
  from w have d: "dll h r as" and di: "distinct as" and rn: "r \<notin> NextOf ` set as"
    by (simp_all add: wf_list_def)
  have iv: "?it \<noteq> NextOf v" using last_ref_cases [of r as] v rv by auto
  note f = new_node_facts [OF iv, of h]
  from d have sg: "seg h r as" using dll_append [of h r as "[]"] by simp
  have "seg ?h' r as = seg h r as"
  proof (intro seg_cong impI ballI)
    assume "as \<noteq> []"
    then have "r \<noteq> ?it" using rn by (auto simp: last_ref_def)
    then show "load ?h' r = load h r" using rv by (simp add: f)
  next
    fix x assume x: "x \<in> set (butlast as)"
    then have "as \<noteq> []" by auto
    with x di have "x \<noteq> last as"
      by (metis append_butlast_last_id distinct_append Int_iff empty_iff
          list.set_intros(1))
    with \<open>as \<noteq> []\<close> have "NextOf x \<noteq> ?it" by (simp add: last_ref_def)
    moreover from x v have "x \<noteq> v" by (auto dest: in_set_butlastD)
    ultimately show "load ?h' (NextOf x) = load h (NextOf x)" by (simp add: f)
  next
    fix x assume "x \<in> set as"
    with v have "x \<noteq> v" by auto
    then show "prevp (nodes ?h' x) = prevp (nodes h x)" by (simp add: f)
  qed
  with sg have "seg ?h' r as" by simp
  moreover have "dll ?h' ?it [v]" using iv by (simp add: f)
  ultimately have "dll ?h' r (as @ [v])" unfolding dll_append by simp
  with di v rn rv show "wf_list ?h' r (as @ [v])" by (auto simp: wf_list_def)
  from v show "map (vec ?h') (as @ [v])
       = map (vec h) as @ [\<lparr>x1 = ax, y1 = ay, x2 = bx, y2 = by\<rparr>]"
    by (auto simp: f)
qed

lemma vector_create_mem_refines:
  assumes "wf_list h r as" and "\<forall>v. calloc_result = Some v \<longrightarrow> v \<notin> set as \<and> r \<noteq> NextOf v"
  shows "\<exists>h' as'. vector_create calloc_result h r ax ay bx by = Some h'
           \<and> wf_list h' r as'
           \<and> map (vec h') as'
               = vector_create_list (calloc_result \<noteq> None) (map (vec h) as) ax ay bx by"
proof -
  from assms(1) have d: "dll h r as" by (simp add: wf_list_def)
  note sc = vector_create_mem_scan_refines [OF d, of ax ay bx "by"]
  show ?thesis
  proof (cases "vector_create_scan_list (map (vec h) as) ax ay bx by")
    case True
    with sc assms(1) show ?thesis
      by (auto simp: vector_create_def vector_create_list_def)
  next
    case False
    show ?thesis
    proof (cases calloc_result)
      case None
      with sc False assms(1) show ?thesis
        by (auto simp: vector_create_def vector_create_list_def)
    next
      case (Some v)
      with assms(2) have "v \<notin> set as" "r \<noteq> NextOf v" by auto
      from wf_new_node [OF assms(1) this, of ax ay bx "by"] sc False Some show ?thesis
        by (auto simp: vector_create_def vector_create_list_def)
    qed
  qed
qed

lemma stats_mem_loop_refines:
  "path h p as \<Longrightarrow> stats_loop h p lx ly st = Some (stats_loop_list (map (vec h) as) lx ly st)"
proof (induction as arbitrary: p lx ly st)
  case Nil
  then show ?case by (simp add: stats_loop.simps)
next
  case (Cons a as)
  from Cons.prems have p: "p = Some a" and n: "path h (nextp (nodes h a)) as" by simp_all
  show ?case
    unfolding p by (subst stats_loop.simps) (simp add: Let_def Cons.IH [OF n])
qed

lemma vector_find_closest_mem_spec:
  assumes w: "wf_list h r as"
    and f: "vector_find_closest h (load h r) cx cy = Some (h', Some b)"
  shows "\<exists>pre post rv bd. as = pre @ b # post \<and> h' = take_node h b rv
           \<and> rv = (sqdist_B cx cy (vec h b) < sqdist_A cx cy (vec h b)
                   \<or> sqdist_A cx cy (vec h b) = NaN)
           \<and> bd = (if rv then sqdist_B cx cy (vec h b) else sqdist_A cx cy (vec h b))
           \<and> bd < round_double 1000000000
           \<and> (\<forall>u\<in>set pre. \<not> sqdist_A cx cy (vec h u) \<le> bd
                           \<and> \<not> sqdist_B cx cy (vec h u) \<le> bd)
           \<and> (\<forall>u\<in>set as. \<not> sqdist_A cx cy (vec h u) < bd
                          \<and> \<not> sqdist_B cx cy (vec h u) < bd)"
proof -
  let ?V = "map (vec h) as"
  from w have d: "dll h r as" by (simp add: wf_list_def)
  obtain bd bi rv
    where l: "find_closest_loop_list ?V 0 cx cy (round_double 1000000000) None False
                = (bd, bi, rv)"
    by (cases "find_closest_loop_list ?V 0 cx cy (round_double 1000000000) None False") auto
  from find_closest_mem_loop_refines [OF dll_path [OF d],
      of 0 as None None cx cy "round_double 1000000000" False]
  have m: "find_closest_loop h (load h r) cx cy (round_double 1000000000) None False
             = Some (bd, map_option ((!) as) bi, rv)"
    by (simp add: l)
  from f m obtain k where bi: "bi = Some k" and b: "b = as ! k" and h': "h' = take_node h b rv"
    by (cases bi) (auto simp: vector_find_closest_def)
  from find_closest_loop_index [of ?V 0 cx cy "round_double 1000000000" None False bd k rv] l bi
  have k: "k < length as" by simp
  from find_closest_loop_pick [OF l] bi obtain pre' w' post'
    where p: "?V = pre' @ w' # post'" "k = length pre'" "bd < round_double 1000000000"
      "rv = (sqdist_B cx cy w' < sqdist_A cx cy w' \<or> sqdist_A cx cy w' = NaN)"
      "bd = (if rv then sqdist_B cx cy w' else sqdist_A cx cy w')"
      "\<forall>u\<in>set pre'. \<not> sqdist_A cx cy u \<le> bd \<and> \<not> sqdist_B cx cy u \<le> bd"
    by auto
  from find_closest_loop_lower [OF l]
  have low: "\<forall>u\<in>set ?V. \<not> sqdist_A cx cy u < bd \<and> \<not> sqdist_B cx cy u < bd" by simp
  from p(1,2) k b have w': "w' = vec h b"
    by (metis nth_append_length nth_map)
  from p(1,2) have pre': "pre' = map (vec h) (take k as)"
    by (metis append_eq_conv_conj take_map)
  from k b have as: "as = take k as @ b # drop (Suc k) as"
    by (simp add: id_take_nth_drop)
  have "as = take k as @ b # drop (Suc k) as \<and> h' = take_node h b rv
           \<and> rv = (sqdist_B cx cy (vec h b) < sqdist_A cx cy (vec h b)
                   \<or> sqdist_A cx cy (vec h b) = NaN)
           \<and> bd = (if rv then sqdist_B cx cy (vec h b) else sqdist_A cx cy (vec h b))
           \<and> bd < round_double 1000000000
           \<and> (\<forall>u\<in>set (take k as). \<not> sqdist_A cx cy (vec h u) \<le> bd
                           \<and> \<not> sqdist_B cx cy (vec h u) \<le> bd)
           \<and> (\<forall>u\<in>set as. \<not> sqdist_A cx cy (vec h u) < bd
                          \<and> \<not> sqdist_B cx cy (vec h u) < bd)"
    using as h' p(3,4,5) p(6) [unfolded pre'] low unfolding w' by simp
  then show ?thesis by blast
qed

lemma list_heap_dll:
  "k \<le> length vs \<Longrightarrow>
     dll (list_heap vs) (if k = 0 then Head 0 else NextOf (k - 1)) [k..<length vs]"
proof (induction "length vs - k" arbitrary: k)
  case 0
  then show ?case by (auto simp: list_heap_def load_simps)
next
  case (Suc n)
  then have k: "k < length vs" by simp
  then have u: "[k..<length vs] = k # [Suc k..<length vs]" by (simp add: upt_conv_Cons)
  from Suc k have "dll (list_heap vs) (NextOf k) [Suc k..<length vs]"
    using Suc.hyps(1) [of "Suc k"] by simp
  with k show ?case unfolding u by (auto simp: list_heap_def load_simps)
qed

lemma list_heap_wf:
  "wf_list (list_heap vs) (Head 0) [0..<length vs]"
  "map (vec (list_heap vs)) [0..<length vs] = vs"
proof -
  from list_heap_dll [of 0 vs] show "wf_list (list_heap vs) (Head 0) [0..<length vs]"
    by (auto simp: wf_list_def)
  show "map (vec (list_heap vs)) [0..<length vs] = vs"
    by (rule nth_equalityI) (simp_all add: vec_def vector.truncate_def list_heap_def)
qed

section \<open>Properties of the store and of the sequencer\<close>

lemma upt_1: "[0..<Suc 0] = [0]"
  by simp

lemma upt_2: "[0..<Suc (Suc 0)] = [0, 1]"
  by (simp add: upt_rec)

lemma upt_3: "[0..<Suc (Suc (Suc 0))] = [0, 1, 2]"
  by (simp add: upt_rec numeral_2_eq_2)

lemma upt_4: "[0..<Suc (Suc (Suc (Suc 0)))] = [0, 1, 2, 3]"
  by (simp add: upt_rec numeral_2_eq_2 numeral_3_eq_3)

lemma scenario_heap:
  "wf_list (list_heap scenario_store) (Head 0) [0, 1, 2]"
  "map (vec (list_heap scenario_store)) [0, 1, 2] = scenario_store"
proof -
  have e: "[0..<length scenario_store] = [0, 1, 2]"
    by (simp add: scenario_store_def upt_3)
  from list_heap_wf [of scenario_store]
  show "wf_list (list_heap scenario_store) (Head 0) [0, 1, 2]"
    and "map (vec (list_heap scenario_store)) [0, 1, 2] = scenario_store"
    unfolding e .
qed

lemma reach_heap:
  "wf_list (list_heap reach_store) (Head 0) [0, 1]"
  "map (vec (list_heap reach_store)) [0, 1] = reach_store"
proof -
  have e: "[0..<length reach_store] = [0, 1]"
    by (simp add: reach_store_def upt_2)
  from list_heap_wf [of reach_store]
  show "wf_list (list_heap reach_store) (Head 0) [0, 1]"
    and "map (vec (list_heap reach_store)) [0, 1] = reach_store"
    unfolding e .
qed

text \<open>
  \<^bold>\<open>C1\<close> (sequencer completeness). Let the store be a well-formed list of the nodes
  \<open>as\<close>. \<^verbatim>\<open>vector_optimize\<close> always ends, and it returns exactly when the store
  is within reach: at each round some remaining segment has an endpoint within
  the search radius (computed squared distance below \<^verbatim>\<open>1e9\<close>) of the position
  of the pen. When it returns, it leaves at the same place a well-formed chain
  \<open>cs\<close> of the same nodes, as many as the store had, and the multiset of
  unordered endpoint pairs of the chain is that of the store. Otherwise it ends
  by \<^verbatim>\<open>abort()\<close>. A store is within reach, in particular, when every segment
  has an endpoint within the search radius of the start position and of every
  endpoint of the store. The segments need be neither distinct nor
  non-degenerate for this.
\<close>

theorem vector_optimize_complete:
  assumes "wf_list h r as"
  shows "(case vector_optimize h r cx cy of
            None \<Rightarrow> False
          | Some (Inl e) \<Rightarrow> \<not> within_reach (map (vec h) as) cx cy
          | Some (Inr (h', vs, ex, ey)) \<Rightarrow>
              within_reach (map (vec h) as) cx cy
              \<and> (\<exists>cs. wf_list h' r cs \<and> vs = load h' r \<and> set cs = set as
                    \<and> length cs = length as
                    \<and> image_mset endpoint_pair (mset (map (vec h') cs))
                        = image_mset endpoint_pair (mset (map (vec h) as))))
         \<and> (all_in_radius (map (vec h) as) cx cy \<longrightarrow> within_reach (map (vec h) as) cx cy)"
proof (intro conjI impI)
  show "case vector_optimize h r cx cy of
            None \<Rightarrow> False
          | Some (Inl e) \<Rightarrow> \<not> within_reach (map (vec h) as) cx cy
          | Some (Inr (h', vs, ex, ey)) \<Rightarrow>
              within_reach (map (vec h) as) cx cy
              \<and> (\<exists>cs. wf_list h' r cs \<and> vs = load h' r \<and> set cs = set as
                    \<and> length cs = length as
                    \<and> image_mset endpoint_pair (mset (map (vec h') cs))
                        = image_mset endpoint_pair (mset (map (vec h) as)))"
  proof (cases "vector_optimize_list (map (vec h) as) cx cy")
    case (Inl e)
    then have "\<not> within_reach (map (vec h) as) cx cy"
      by (simp flip: vector_optimize_within_reach)
    with vector_optimize_mem_refines [OF assms, of cx cy] Inl show ?thesis by simp
  next
    case (Inr res)
    obtain vals ex ey where res: "res = (vals, ex, ey)" by (cases res) auto
    from Inr have "\<exists>q. vector_optimize_list (map (vec h) as) cx cy = Inr q" by blast
    then have wr: "within_reach (map (vec h) as) cx cy"
      by (simp only: vector_optimize_within_reach)
    from vector_optimize_mem_refines [OF assms, of cx cy] Inr res obtain h' cs
      where v: "vector_optimize h r cx cy = Some (Inr (h', load h' r, ex, ey))"
        and c: "wf_list h' r cs" "map (vec h') cs = vals" "set cs = set as"
      by auto
    from vector_optimize_result [of "map (vec h) as" cx cy vals ex ey] Inr res
    have l: "length vals = length as"
      and m: "image_mset endpoint_pair (mset vals)
                = image_mset endpoint_pair (mset (map (vec h) as))"
      by simp_all
    from c(2) l have "length cs = length as" by (metis length_map)
    with c m have "\<exists>cs. wf_list h' r cs \<and> load h' r = load h' r \<and> set cs = set as
                    \<and> length cs = length as
                    \<and> image_mset endpoint_pair (mset (map (vec h') cs))
                        = image_mset endpoint_pair (mset (map (vec h) as))"
      by blast
    with wr show ?thesis unfolding v by simp
  qed
next
  assume "all_in_radius (map (vec h) as) cx cy"
  then show "within_reach (map (vec h) as) cx cy" by (rule all_in_radius_within_reach)
qed

theorem vector_optimize_complete_witness:
  "wf_list (list_heap reach_store) (Head 0) [0, 1]
   \<and> within_reach (map (vec (list_heap reach_store)) [0, 1]) 0 0
   \<and> \<not> all_in_radius (map (vec (list_heap reach_store)) [0, 1]) 0 0
   \<and> (\<exists>h' vs ex ey cs.
         vector_optimize (list_heap reach_store) (Head 0) 0 0 = Some (Inr (h', vs, ex, ey))
         \<and> wf_list h' (Head 0) cs \<and> vs = load h' (Head 0) \<and> set cs = {0, 1}
         \<and> length cs = 2
         \<and> image_mset endpoint_pair (mset (map (vec h') cs))
             = image_mset endpoint_pair (mset reach_store))"
proof -
  note w = reach_heap(1)
  let ?H = "list_heap reach_store"
  from reach_store_run have "\<exists>q. vector_optimize_list reach_store 0 0 = Inr q" by blast
  then have wr: "within_reach (map (vec ?H) [0, 1]) 0 0"
    unfolding reach_heap(2) by (simp only: vector_optimize_within_reach)
  have na: "\<not> all_in_radius (map (vec ?H) [0, 1]) 0 0"
    unfolding reach_heap(2) by (rule reach_store_not_all_in_radius)
  have "\<exists>h' vs ex ey cs.
         vector_optimize ?H (Head 0) 0 0 = Some (Inr (h', vs, ex, ey))
         \<and> wf_list h' (Head 0) cs \<and> vs = load h' (Head 0) \<and> set cs = {0, 1}
         \<and> length cs = 2
         \<and> image_mset endpoint_pair (mset (map (vec h') cs))
             = image_mset endpoint_pair (mset reach_store)"
  proof (cases "vector_optimize ?H (Head 0) 0 0")
    case None
    with vector_optimize_complete [OF w, of 0 0] show ?thesis by simp
  next
    case (Some res)
    show ?thesis
    proof (cases res)
      case (Inl e)
      with vector_optimize_complete [OF w, of 0 0] Some wr show ?thesis by simp
    next
      case (Inr q)
      obtain h' vs ex ey where q: "q = (h', vs, ex, ey)" by (cases q) auto
      from vector_optimize_complete [OF w, of 0 0] Some Inr q obtain cs
        where "wf_list h' (Head 0) cs" "vs = load h' (Head 0)" "set cs = set [0, 1::nat]"
          "length cs = length [0, 1::nat]"
          "image_mset endpoint_pair (mset (map (vec h') cs))
             = image_mset endpoint_pair (mset (map (vec ?H) [0, 1]))"
        by auto
      with Some Inr q show ?thesis unfolding reach_heap(2) by auto
    qed
  qed
  with w wr na show ?thesis by (intro conjI)
qed

lemma scenario_heap_run:
  "\<exists>h' cs. vector_optimize (list_heap scenario_store) (Head 0) 0 0
              = Some (Inr (h', load h' (Head 0), Fin 5, Fin 6))
           \<and> wf_list h' (Head 0) cs
           \<and> map (vec h') cs
               = [\<lparr>x1 = Fin 0, y1 = Fin 0, x2 = Fin 1, y2 = Fin 0\<rparr>,
                  \<lparr>x1 = Fin 1, y1 = Fin 0, x2 = Fin 1, y2 = Fin 1\<rparr>,
                  \<lparr>x1 = Fin 5, y1 = Fin 5, x2 = Fin 5, y2 = Fin 6\<rparr>]"
proof -
  note r = vector_optimize_mem_refines [OF scenario_heap(1), of 0 0,
      unfolded scenario_heap(2) scenario_run, simplified sum.case prod.case]
  then show ?thesis
    by (elim exE conjE) (intro exI conjI, assumption+)
qed

text \<open>
  \<^bold>\<open>C5\<close> (pen continuity). Let the store be a well-formed list of the nodes \<open>as\<close>.
  \<^verbatim>\<open>vector_optimize\<close> always ends. When it returns, it leaves a well-formed chain
  \<open>cs\<close> that is empty exactly when the store was, and the position it hands back
  is the B endpoint of the last node of the chain, or the caller's position when
  the chain is empty. Otherwise it ends by the \<^verbatim>\<open>abort()\<close>, which needs a
  non-empty store with a segment out of reach.
\<close>

theorem vector_optimize_final_position:
  assumes "wf_list h r as"
  shows "case vector_optimize h r cx cy of
           None \<Rightarrow> False
         | Some (Inl e) \<Rightarrow> as \<noteq> [] \<and> \<not> all_in_radius (map (vec h) as) cx cy
         | Some (Inr (h', vs, ex, ey)) \<Rightarrow>
             (\<exists>cs. wf_list h' r cs \<and> vs = load h' r \<and> (cs = []) = (as = [])
                \<and> (ex, ey) = (if cs = [] then (cx, cy)
                              else (x2 (nodes h' (last cs)), y2 (nodes h' (last cs)))))"
proof (cases "vector_optimize_list (map (vec h) as) cx cy")
  case (Inl e)
  from vector_optimize_Abort [OF Inl] vector_optimize_mem_refines [OF assms, of cx cy] Inl
  show ?thesis by simp
next
  case (Inr res)
  obtain vals ex ey where res: "res = (vals, ex, ey)" by (cases res) auto
  from vector_optimize_mem_refines [OF assms, of cx cy] Inr res obtain h' cs
    where r: "vector_optimize h r cx cy = Some (Inr (h', load h' r, ex, ey))"
      and c: "wf_list h' r cs" "map (vec h') cs = vals"
    by auto
  from vector_optimize_result [of "map (vec h) as" cx cy vals ex ey] Inr res
  have l: "length vals = length as"
    and e: "(ex, ey) = (if vals = [] then (cx, cy) else (x2 (last vals), y2 (last vals)))"
    by simp_all
  from c(2) l have 1: "(cs = []) = (as = [])" by (metis length_0_conv length_map)
  have 2: "(ex, ey) = (if cs = [] then (cx, cy)
                       else (x2 (nodes h' (last cs)), y2 (nodes h' (last cs))))"
  proof (cases "cs = []")
    case True
    with c(2) e show ?thesis by simp
  next
    case False
    then have "last vals = vec h' (last cs)" unfolding c(2) [symmetric] by (simp add: last_map)
    with False c(2) e show ?thesis by auto
  qed
  from c(1) 1 2 have "\<exists>cs. wf_list h' r cs \<and> load h' r = load h' r \<and> (cs = []) = (as = [])
      \<and> (ex, ey) = (if cs = [] then (cx, cy)
                    else (x2 (nodes h' (last cs)), y2 (nodes h' (last cs))))"
    by blast
  then show ?thesis unfolding r by simp
qed

theorem vector_optimize_final_position_witness:
  "wf_list (list_heap scenario_store) (Head 0) [0, 1, 2]
   \<and> (\<exists>h' cs. vector_optimize (list_heap scenario_store) (Head 0) 0 0
                  = Some (Inr (h', load h' (Head 0), Fin 5, Fin 6))
          \<and> wf_list h' (Head 0) cs \<and> cs \<noteq> []
          \<and> (Fin 5, Fin 6) = (x2 (nodes h' (last cs)), y2 (nodes h' (last cs))))"
proof -
  from scenario_heap_run obtain h'
    where r: "vector_optimize (list_heap scenario_store) (Head 0) 0 0
                = Some (Inr (h', load h' (Head 0), Fin 5, Fin 6))"
    by blast
  from vector_optimize_final_position [OF scenario_heap(1), of 0 0] r obtain cs
    where "wf_list h' (Head 0) cs" "cs \<noteq> []"
      "(Fin 5, Fin 6) = (if cs = [] then (0, 0)
                 else (x2 (nodes h' (last cs)), y2 (nodes h' (last cs))))"
    by auto
  with r scenario_heap(1) show ?thesis by auto
qed

lemma round_9e8: "round_double (900000000 + 1 / 2 ^ 40) = Fin 900000000"
proof -
  let ?x = "900000000 + 1 / 2 ^ 40 :: real"
  have "expo ?x = 29"
    by (rule expo_eq) (simp_all add: powr_realpow [symmetric] flip: powr_numeral)
  then have u: "ulp ?x = 1 / 2 ^ 23"
    by (simp add: ulp_def powr_minus divide_simps flip: powr_numeral)
  have n: "nearest_even (?x / (1 / 2 ^ 23)) = 7549747200000000"
    by (simp add: nearest_even_def Let_def)
  show ?thesis
    unfolding round_double_def Let_def u n by simp
qed

lemma near_arith:
  "(0::double) - Fin 30000 = Fin (- 30000)"
  "(0::double) - Fin (1 / 1048576) = Fin (- (1 / 1048576))"
  "(0::double) - Fin 0 = Fin 0"
  "(0::double) - Fin 1 = Fin (- 1)"
  "(0::double) - Fin 2 = Fin (- 2)"
  "Fin (- 30000) * Fin (- 30000) = Fin 900000000"
  "Fin (- (1 / 1048576)) * Fin (- (1 / 1048576)) = Fin (1 / 1099511627776)"
  "Fin 0 * Fin 0 = Fin 0"
  "Fin (- 1) * Fin (- 1) = Fin 1"
  "Fin (- 2) * Fin (- 2) = Fin 4"
  "Fin 900000000 + Fin (1 / 1099511627776) = Fin 900000000"
  "Fin 900000000 + Fin 0 = Fin 900000000"
  "Fin 900000000 + Fin 1 = Fin 900000001"
  "Fin 900000000 + Fin 4 = Fin 900000004"
  using round_double_dyadic [of "- 1" 20] round_double_dyadic [of 1 40] round_9e8
  by (simp_all add: double_simps)

lemma near_store_dist:
  "sqdist_A 0 0 \<lparr>x1 = Fin 30000, y1 = Fin (1 / 1048576), x2 = Fin 30000, y2 = Fin 1\<rparr>
     = Fin 900000000"
  "sqdist_B 0 0 \<lparr>x1 = Fin 30000, y1 = Fin (1 / 1048576), x2 = Fin 30000, y2 = Fin 1\<rparr>
     = Fin 900000001"
  "sqdist_A 0 0 \<lparr>x1 = Fin 30000, y1 = Fin 0, x2 = Fin 30000, y2 = Fin 2\<rparr> = Fin 900000000"
  "sqdist_B 0 0 \<lparr>x1 = Fin 30000, y1 = Fin 0, x2 = Fin 30000, y2 = Fin 2\<rparr> = Fin 900000004"
  by (simp_all only: sqdist_A_def sqdist_B_def vector.simps near_arith)

lemma near_store_find:
  "vector_find_closest_list near_store 0 0
     = Some (\<lparr>x1 = Fin 30000, y1 = Fin (1 / 2 ^ 20), x2 = Fin 30000, y2 = Fin 1\<rparr>,
             [\<lparr>x1 = Fin 30000, y1 = Fin 0, x2 = Fin 30000, y2 = Fin 2\<rparr>])"
  by (simp add: near_store_def vector_find_closest_list_def find_closest_loop_Cons
      near_store_dist lit_1e9 unlink_def del: find_closest_loop_list.simps(2))

lemma near_heap:
  "wf_list (list_heap near_store) (Head 0) [0, 1]"
  "map (vec (list_heap near_store)) [0, 1] = near_store"
proof -
  have e: "[0..<length near_store] = [0, 1]"
    by (simp add: near_store_def upt_2)
  from list_heap_wf [of near_store]
  show "wf_list (list_heap near_store) (Head 0) [0, 1]"
    and "map (vec (list_heap near_store)) [0, 1] = near_store"
    unfolding e .
qed

lemma near_heap_nodes:
  "load (list_heap near_store) (Head 0) = Some 0"
  "nextp (nodes (list_heap near_store) 0) = Some (Suc 0)"
  "nextp (nodes (list_heap near_store) (Suc 0)) = None"
  "vec (list_heap near_store) 0
     = \<lparr>x1 = Fin 30000, y1 = Fin (1 / 1048576), x2 = Fin 30000, y2 = Fin 1\<rparr>"
  "vec (list_heap near_store) (Suc 0)
     = \<lparr>x1 = Fin 30000, y1 = Fin 0, x2 = Fin 30000, y2 = Fin 2\<rparr>"
  by (simp_all add: load_simps vec_def vector.truncate_def list_heap_def near_store_def)

lemma near_heap_find:
  "vector_find_closest (list_heap near_store) (load (list_heap near_store) (Head 0)) 0 0
     = Some (take_node (list_heap near_store) 0 False, Some 0)"
  by (simp add: vector_find_closest_def find_closest_mem_loop_Some find_closest_mem_loop_None
      near_heap_nodes near_store_dist lit_1e9)

text \<open>
  \<^bold>\<open>C3\<close> (closest-endpoint search). Let the store be a well-formed list of the nodes
  \<open>as\<close>, and let \<^verbatim>\<open>vector_find_closest\<close> return the node \<open>b\<close>. Then \<open>b\<close> is a node
  of the store, \<open>as = pre @ b # post\<close>, and: the store is left as the well-formed
  list \<open>pre @ post\<close> of the other nodes, in their order and with their segments
  untouched, and both links of \<open>b\<close> are \<^verbatim>\<open>NULL\<close>; the segment of \<open>b\<close> has been
  reversed exactly when its B endpoint was strictly nearer than its A endpoint
  (or the distance of its A endpoint was not a number); the squared distance of
  the A endpoint of \<open>b\<close> is now below \<^verbatim>\<open>1e9\<close>; no endpoint of a node of the store
  is nearer; and no endpoint of a node before \<open>b\<close> is as near, so that among
  equally close nodes the first in iteration order is taken. The squared
  distances are those that the program computes, in \<^verbatim>\<open>double\<close> arithmetic.
\<close>

theorem vector_find_closest_minimal:
  assumes "wf_list h r as"
    and "vector_find_closest h (load h r) cx cy = Some (h', Some b)"
  shows "\<exists>pre post. as = pre @ b # post
           \<and> wf_list h' r (pre @ post)
           \<and> map (vec h') (pre @ post) = map (vec h) (pre @ post)
           \<and> nextp (nodes h' b) = None \<and> prevp (nodes h' b) = None
           \<and> vec h' b = (if sqdist_B cx cy (vec h b) < sqdist_A cx cy (vec h b)
                            \<or> sqdist_A cx cy (vec h b) = NaN
                         then flip (vec h b) else vec h b)
           \<and> sqdist_A cx cy (vec h' b) < round_double 1000000000
           \<and> (\<forall>u\<in>set pre. \<not> sqdist_A cx cy (vec h u) \<le> sqdist_A cx cy (vec h' b)
                           \<and> \<not> sqdist_B cx cy (vec h u) \<le> sqdist_A cx cy (vec h' b))
           \<and> (\<forall>u\<in>set as. \<not> sqdist_A cx cy (vec h u) < sqdist_A cx cy (vec h' b)
                          \<and> \<not> sqdist_B cx cy (vec h u) < sqdist_A cx cy (vec h' b))"
proof -
  from vector_find_closest_mem_spec [OF assms] obtain pre post rv bd
    where s: "as = pre @ b # post" "h' = take_node h b rv"
      "rv = (sqdist_B cx cy (vec h b) < sqdist_A cx cy (vec h b)
             \<or> sqdist_A cx cy (vec h b) = NaN)"
      "bd = (if rv then sqdist_B cx cy (vec h b) else sqdist_A cx cy (vec h b))"
      "bd < round_double 1000000000"
      "\<forall>u\<in>set pre. \<not> sqdist_A cx cy (vec h u) \<le> bd \<and> \<not> sqdist_B cx cy (vec h u) \<le> bd"
      "\<forall>u\<in>set as. \<not> sqdist_A cx cy (vec h u) < bd \<and> \<not> sqdist_B cx cy (vec h u) < bd"
    by blast
  note t = wf_take_node [OF assms(1) [unfolded s(1)], of rv, folded s(2)]
  from t(3) s(3)
  have v: "vec h' b = (if sqdist_B cx cy (vec h b) < sqdist_A cx cy (vec h b)
                          \<or> sqdist_A cx cy (vec h b) = NaN
                       then flip (vec h b) else vec h b)"
    by simp
  from t(3) s(4) have m: "sqdist_A cx cy (vec h' b) = bd" by simp
  from t(4) have n: "nextp (nodes h' b) = None" by (simp add: load_simps)
  from s(1) t(1,2,5) n v s(5,6,7) show ?thesis unfolding m by blast
qed

theorem vector_find_closest_minimal_witness:
  "wf_list (list_heap near_store) (Head 0) [0, 1]
   \<and> vector_find_closest (list_heap near_store) (load (list_heap near_store) (Head 0)) 0 0
       = Some (take_node (list_heap near_store) 0 False, Some 0)
   \<and> wf_list (take_node (list_heap near_store) 0 False) (Head 0) [1]
   \<and> vec (take_node (list_heap near_store) 0 False) 0
       = \<lparr>x1 = Fin 30000, y1 = Fin (1 / 2 ^ 20), x2 = Fin 30000, y2 = Fin 1\<rparr>
   \<and> nextp (nodes (take_node (list_heap near_store) 0 False) 0) = None
   \<and> prevp (nodes (take_node (list_heap near_store) 0 False) 0) = None
   \<and> sqdist_A 0 0 (vec (take_node (list_heap near_store) 0 False) 0) = Fin 900000000
   \<and> sqdist_A 0 0 (vec (list_heap near_store) 1) = Fin 900000000"
proof -
  let ?H = "list_heap near_store"
  note v = near_heap_nodes(4,5)
  from vector_find_closest_minimal [OF near_heap(1) near_heap_find] obtain pre post
    where p: "[0, 1] = pre @ (0::nat) # post"
      "wf_list (take_node ?H 0 False) (Head 0) (pre @ post)"
      "nextp (nodes (take_node ?H 0 False) 0) = None"
      "prevp (nodes (take_node ?H 0 False) 0) = None"
      "vec (take_node ?H 0 False) 0 =
         (if sqdist_B 0 0 (vec ?H 0) < sqdist_A 0 0 (vec ?H 0) \<or> sqdist_A 0 0 (vec ?H 0) = NaN
          then flip (vec ?H 0) else vec ?H 0)"
    by blast
  from p(1) have e: "pre = [] \<and> post = [1]"
    by (cases pre) (auto simp: Cons_eq_append_conv)
  from p(5) have f: "vec (take_node ?H 0 False) 0 = vec ?H 0"
    unfolding v near_store_dist by simp
  have g: "sqdist_A 0 0 (vec (take_node ?H 0 False) 0) = Fin 900000000"
    unfolding f v near_store_dist ..
  have k: "sqdist_A 0 0 (vec ?H 1) = Fin 900000000"
    using near_store_dist(3) by (simp add: v)
  have f': "vec (take_node ?H 0 False) 0
              = \<lparr>x1 = Fin 30000, y1 = Fin (1 / 2 ^ 20), x2 = Fin 30000, y2 = Fin 1\<rparr>"
    unfolding f v by simp
  from e p(2) have w: "wf_list (take_node ?H 0 False) (Head 0) [1]" by simp
  from near_heap(1) near_heap_find w f' p(3,4) g k show ?thesis by (intro conjI)
qed

lemma far_heap:
  "wf_list (list_heap far_store) (Head 0) [0]"
  "map (vec (list_heap far_store)) [0] = far_store"
proof -
  have e: "[0..<length far_store] = [0]" by (simp add: far_store_def)
  from list_heap_wf [of far_store]
  show "wf_list (list_heap far_store) (Head 0) [0]"
    and "map (vec (list_heap far_store)) [0] = far_store"
    unfolding e .
qed

text \<open>
  \<^bold>\<open>C10\<close> (a \<^verbatim>\<open>NULL\<close> from a non-empty store). If the store is a well-formed list
  that is not empty, and no endpoint of a node is at a squared distance below
  \<^verbatim>\<open>1e9\<close> from \<open>(cx, cy)\<close>, then \<^verbatim>\<open>vector_find_closest\<close> returns \<^verbatim>\<open>NULL\<close>, leaving
  the memory as it was, and \<^verbatim>\<open>vector_optimize\<close>, started there, aborts.
\<close>

theorem vector_find_closest_out_of_reach:
  assumes "wf_list h r as" and "as \<noteq> []"
    and "\<forall>a\<in>set as. \<not> sqdist_A cx cy (vec h a) < round_double 1000000000
                    \<and> \<not> sqdist_B cx cy (vec h a) < round_double 1000000000"
  shows "vector_find_closest h (load h r) cx cy = Some (h, None)
         \<and> vector_optimize h r cx cy = Some (Inl Abort)"
proof -
  let ?V = "map (vec h) as"
  from assms(2) have ne: "?V \<noteq> []" by simp
  from assms(3) have far: "\<forall>v\<in>set ?V. \<not> in_radius cx cy v"
    by (simp add: in_radius_def)
  from vector_find_closest_out_of_reach_list [OF ne far]
  have n: "vector_find_closest_list ?V cx cy = None"
    and a: "vector_optimize_list ?V cx cy = Inl Abort"
    by simp_all
  from vector_find_closest_mem_refines [OF assms(1), of cx cy] n
  have "vector_find_closest h (load h r) cx cy = Some (h, None)" by simp
  moreover from vector_optimize_mem_refines [OF assms(1), of cx cy] a
  have "vector_optimize h r cx cy = Some (Inl Abort)" by simp
  ultimately show ?thesis by simp
qed

theorem vector_find_closest_out_of_reach_witness:
  "wf_list (list_heap far_store) (Head 0) [0]
   \<and> sqdist_A 0 0 (vec (list_heap far_store) 0) = Fin 10000000000
   \<and> sqdist_B 0 0 (vec (list_heap far_store) 0) = Fin 10000000001
   \<and> round_double 1000000000 = Fin 1000000000
   \<and> vector_find_closest (list_heap far_store) (load (list_heap far_store) (Head 0)) 0 0
       = Some (list_heap far_store, None)
   \<and> vector_optimize (list_heap far_store) (Head 0) 0 0 = Some (Inl Abort)"
proof -
  have d: "sqdist_A 0 0 (vec (list_heap far_store) 0) = Fin 10000000000"
    "sqdist_B 0 0 (vec (list_heap far_store) 0) = Fin 10000000001"
    by (simp_all add: sqdist_A_def sqdist_B_def list_heap_def far_store_def double_simps)
  then have "\<forall>a\<in>set [0]. \<not> sqdist_A 0 0 (vec (list_heap far_store) a) < round_double 1000000000
                    \<and> \<not> sqdist_B 0 0 (vec (list_heap far_store) a) < round_double 1000000000"
    by (simp add: lit_1e9)
  from vector_find_closest_out_of_reach [OF far_heap(1) _ this] far_heap(1) d lit_1e9
  show ?thesis by simp
qed

section \<open>Properties of the insertion\<close>

lemma empty_heap: "wf_list (list_heap []) (Head 0) []"
  using list_heap_wf(1) [of "[]"] by simp

text \<open>
  \<^bold>\<open>C2\<close> (degenerate rejection). On the empty store the loop of
  \<^verbatim>\<open>vector_create\<close>, which holds the test for a degenerate segment, is not
  entered: the segment from \<open>(0, 0)\<close> to \<open>(0, 0)\<close> is appended, at the address
  that \<^verbatim>\<open>calloc\<close> returned, and the store grows from no node to one. (On a
  store that is not empty the test is reached, and a degenerate segment with
  finite coordinates is rejected.)
\<close>

theorem vector_create_degenerate_on_empty:
  "wf_list (list_heap []) (Head 0) []
   \<and> vector_create (Some 0) (list_heap []) (Head 0) 0 0 0 0
       = Some (new_node (list_heap []) (Head 0) 0 0 0 0 0)
   \<and> wf_list (new_node (list_heap []) (Head 0) 0 0 0 0 0) (Head 0) [0]
   \<and> vec (new_node (list_heap []) (Head 0) 0 0 0 0 0) 0 = \<lparr>x1 = 0, y1 = 0, x2 = 0, y2 = 0\<rparr>"
proof -
  have "dll (list_heap []) (Head 0) []" using empty_heap by (simp add: wf_list_def)
  from vector_create_mem_scan_refines [OF this, of 0 0 0 0]
  have "vector_create (Some 0) (list_heap []) (Head 0) 0 0 0 0
          = Some (new_node (list_heap []) (Head 0) 0 0 0 0 0)"
    by (simp add: vector_create_def last_ref_def)
  moreover from wf_new_node [OF empty_heap, of 0 0 0 0 0]
  have "wf_list (new_node (list_heap []) (Head 0) 0 0 0 0 0) (Head 0) [0]"
    and "vec (new_node (list_heap []) (Head 0) 0 0 0 0 0) 0 = \<lparr>x1 = 0, y1 = 0, x2 = 0, y2 = 0\<rparr>"
    by (simp_all add: last_ref_def)
  ultimately show ?thesis using empty_heap by simp
qed



lemma fpeq_PInf [simp]: "\<not> fpeq PInf y"
  by (cases y) (simp_all add: fpeq_def eps_num minus_double_def)




section \<open>Properties of the statistics\<close>

lemma vector_stats_mem_refines:
  assumes "path h p as"
  shows "vector_stats h p = Some (vector_stats_list (map (vec h) as))"
    and "vector_transit_len h p = Some (vector_transit_len_list (map (vec h) as))"
  by (simp_all add: vector_stats_def vector_stats_list_def vector_transit_len_def
      vector_transit_len_list_def stats_mem_loop_refines [OF assms]
      transit_len_mem_loop_refines [OF assms])

lemma one_cut_heap:
  "wf_list (list_heap one_cut) (Head 0) [0]"
  "map (vec (list_heap one_cut)) [0] = one_cut"
proof -
  have e: "[0..<length one_cut] = [0]" by (simp add: one_cut_def)
  from list_heap_wf [of one_cut]
  show "wf_list (list_heap one_cut) (Head 0) [0]"
    and "map (vec (list_heap one_cut)) [0] = one_cut"
    unfolding e .
qed

lemma one_cut_path: "path (list_heap one_cut) (load (list_heap one_cut) (Head 0)) [0]"
  using one_cut_heap(1) by (intro dll_path) (simp add: wf_list_def)

lemma tiny_cut_heap:
  "wf_list (list_heap tiny_cut) (Head 0) [0]"
  "map (vec (list_heap tiny_cut)) [0] = tiny_cut"
proof -
  have e: "[0..<length tiny_cut] = [0]" by (simp add: tiny_cut_def)
  from list_heap_wf [of tiny_cut]
  show "wf_list (list_heap tiny_cut) (Head 0) [0]"
    and "map (vec (list_heap tiny_cut)) [0] = tiny_cut"
    unfolding e .
qed

lemma tiny_cut_path: "path (list_heap tiny_cut) (load (list_heap tiny_cut) (Head 0)) [0]"
  using tiny_cut_heap(1) by (intro dll_path) (simp add: wf_list_def)

lemma tiny_cut_transits: "pen_transits 0 0 tiny_cut = [Fin 0]"
proof -
  have a: "(0::double) - Fin (1 / 2 ^ 600) = Fin (- (1 / 2 ^ 600))"
    using round_double_dyadic [of "- 1" 600]
    by (simp add: zero_double_def minus_double_def del: power_numeral)
  have "\<bar>- (1 / 2 ^ 600) * - (1 / 2 ^ 600) :: real\<bar> = 1 / 2 ^ 1200"
    by (simp add: power_add [symmetric] del: power_numeral)
  also have "\<dots> = 2 powr - 1200"
    by (simp add: powr_minus powr_realpow [symmetric] divide_simps flip: powr_numeral)
  also have "\<dots> < 2 powr - 1075" by simp
  finally have b: "Fin (- (1 / 2 ^ 600)) * Fin (- (1 / 2 ^ 600)) = Fin 0"
    by (simp only: times_double.simps round_double_underflow)
  have c: "(0::double) - Fin 0 = Fin 0" "Fin 0 * Fin 0 = Fin 0" "Fin 0 + Fin 0 = Fin 0"
    "sqrt_double (Fin 0) = Fin 0"
    by (simp_all add: double_simps)
  show ?thesis
    by (simp only: tiny_cut_def pen_transits.simps vector.simps a b c)
qed

text \<open>
  \<^bold>\<open>C9\<close> (transit length of the statistics), as stated: the transit length is the
  sum of the transits between consecutive segments. It fails on a chain of one
  segment that starts at \<open>(3, 4)\<close>: there is no pair of consecutive segments,
  and the program reports one transit of length 5, from the origin.
\<close>

theorem vector_stats_transit_counterexample:
  "map_option transit_len_sum
     (vector_stats (list_heap one_cut) (load (list_heap one_cut) (Head 0))) = Some (Fin 5)
   \<and> map_option transits
       (vector_stats (list_heap one_cut) (load (list_heap one_cut) (Head 0))) = Some 1
   \<and> consecutive_transits (map (vec (list_heap one_cut)) [0]) = []"
proof -
  have "vector_stats (list_heap one_cut) (load (list_heap one_cut) (Head 0))
          = Some (vector_stats_list one_cut)"
    using vector_stats_mem_refines(1) [OF one_cut_path] unfolding one_cut_heap(2) .
  then show ?thesis
    unfolding one_cut_heap(2) using vector_stats_transit_counterexample_list by simp
qed

text \<open>
  \<^bold>\<open>C9\<close>, amended: the pen starts at the origin, and the transit from the origin to
  the A endpoint of the first segment is counted with the transits between
  consecutive segments. For the chain of the nodes \<open>as\<close> reached from a node
  pointer, the transit count is the number of these lengths that are not zero,
  and the transit length is their sum, added up in \<^verbatim>\<open>double\<close> arithmetic from
  zero in the order of the chain; \<^verbatim>\<open>vector_transit_len\<close> computes the same sum.
  Each length is the one that the program computes: the rounded square root of
  the rounded sum of the rounded squares.
\<close>

theorem vector_stats_transit:
  assumes "path h p as"
  shows "\<exists>st. vector_stats h p = Some st
           \<and> transit_len_sum st
               = foldl (+) 0 (filter (\<lambda>d. d \<noteq> 0) (pen_transits 0 0 (map (vec h) as)))
           \<and> transits st
               = int (length (filter (\<lambda>d. d \<noteq> 0) (pen_transits 0 0 (map (vec h) as))))
           \<and> vector_transit_len h p
               = Some (foldl (+) 0 (filter (\<lambda>d. d \<noteq> 0) (pen_transits 0 0 (map (vec h) as))))
           \<and> pen_transits 0 0 (map (vec h) as)
               = (case map (vec h) as of [] \<Rightarrow> []
                  | v # vs \<Rightarrow>
                      sqrt_double ((0 - x1 v) * (0 - x1 v) + (0 - y1 v) * (0 - y1 v))
                        # consecutive_transits (map (vec h) as))"
  using vector_stats_transit_list [of "map (vec h) as"] vector_stats_mem_refines [OF assms]
  by simp

theorem vector_stats_transit_witness:
  "path (list_heap one_cut) (load (list_heap one_cut) (Head 0)) [0]
   \<and> (\<exists>st. vector_stats (list_heap one_cut) (load (list_heap one_cut) (Head 0)) = Some st
          \<and> transit_len_sum st = Fin 5 \<and> transits st = 1)
   \<and> vector_transit_len (list_heap one_cut) (load (list_heap one_cut) (Head 0)) = Some (Fin 5)
   \<and> path (list_heap tiny_cut) (load (list_heap tiny_cut) (Head 0)) [0]
   \<and> (\<exists>st. vector_stats (list_heap tiny_cut) (load (list_heap tiny_cut) (Head 0)) = Some st
          \<and> transit_len_sum st = Fin 0 \<and> transits st = 0)"
proof -
  have "pen_transits 0 0 one_cut = [Fin 5]"
    by (simp add: one_cut_def sqrt_25 double_simps)
  with vector_stats_transit [OF one_cut_path] one_cut_path
  have 1: "path (list_heap one_cut) (load (list_heap one_cut) (Head 0)) [0]
     \<and> (\<exists>st. vector_stats (list_heap one_cut) (load (list_heap one_cut) (Head 0)) = Some st
          \<and> transit_len_sum st = Fin 5 \<and> transits st = 1)
     \<and> vector_transit_len (list_heap one_cut) (load (list_heap one_cut) (Head 0))
         = Some (Fin 5)"
    unfolding one_cut_heap(2) by (auto simp: double_simps)
  from vector_stats_transit [OF tiny_cut_path] tiny_cut_path
  have 2: "path (list_heap tiny_cut) (load (list_heap tiny_cut) (Head 0)) [0]
     \<and> (\<exists>st. vector_stats (list_heap tiny_cut) (load (list_heap tiny_cut) (Head 0)) = Some st
          \<and> transit_len_sum st = Fin 0 \<and> transits st = 0)"
    unfolding tiny_cut_heap(2) tiny_cut_transits by (auto simp: zero_double_def)
  from 1 2 show ?thesis by (elim conjE) (intro conjI, assumption+)
qed

section \<open>Properties of the refinement\<close>

lemma sqrt_9e8: "sqrt 900000000 = 30000"
  by (rule real_sqrt_unique) simp_all

lemma tie_heap:
  "wf_list (list_heap tie_chain) (Head 0) [0, 1, 2]"
  "map (vec (list_heap tie_chain)) [0, 1, 2] = tie_chain"
proof -
  have e: "[0..<length tie_chain] = [0, 1, 2]" by (simp add: tie_chain_def upt_3)
  from list_heap_wf [of tie_chain]
  show "wf_list (list_heap tie_chain) (Head 0) [0, 1, 2]"
    and "map (vec (list_heap tie_chain)) [0, 1, 2] = tie_chain"
    unfolding e .
qed

lemma round_heap:
  "wf_list (list_heap round_chain) (Head 0) [0, 1, 2]"
  "map (vec (list_heap round_chain)) [0, 1, 2] = round_chain"
proof -
  have e: "[0..<length round_chain] = [0, 1, 2]" by (simp add: round_chain_def upt_3)
  from list_heap_wf [of round_chain]
  show "wf_list (list_heap round_chain) (Head 0) [0, 1, 2]"
    and "map (vec (list_heap round_chain)) [0, 1, 2] = round_chain"
    unfolding e .
qed

lemma three_node_loops:
  assumes w: "wf_list h (Head 0) [0, 1, 2]" and v: "map (vec h) [0, 1, 2] = chain"
    and l: "longest_transit_loop_list chain 0 cx cy 0 None = (m, Some 2)"
    and c: "closest_loop_list (take 2 chain) 0 (chain ! 2) (round_double 1000000000) None
              = (md, Some k)"
    and k: "k < 3"
  shows "longest_transit_loop h (load h (Head 0)) cx cy 0 None = Some (m, Some 2)"
    and "closest_loop h (load h (Head 0)) 2 (round_double 1000000000) None = Some (md, Some k)"
proof -
  have p: "path h (load h (Head 0)) [0, 1, 2]"
    using w by (intro dll_path) (simp add: wf_list_def)
  have "longest_transit_loop h (load h (Head 0)) cx cy 0 None
          = Some (case longest_transit_loop_list (map (vec h) [0, 1, 2]) 0 cx cy 0 None of
                    (m', ti') \<Rightarrow> (m', map_option ((!) [0, 1, 2]) ti'))"
    by (rule longest_transit_mem_loop_refines [OF p]) simp_all
  then show "longest_transit_loop h (load h (Head 0)) cx cy 0 None = Some (m, Some 2)"
    unfolding v l by simp
  have "vec h ([0, 1, 2] ! 2) = map (vec h) [0, 1, 2] ! 2" by simp
  then have v2: "vec h ([0, 1, 2] ! 2) = chain ! 2" unfolding v .
  have "map (vec h) (drop 0 (take 2 [0, 1, 2])) = take 2 (map (vec h) [0, 1, 2])"
    by (simp only: drop_0 take_map)
  then have v1: "map (vec h) (drop 0 (take 2 [0, 1, 2])) = take 2 chain"
    unfolding v .
  have "closest_loop h (load h (Head 0)) ([0, 1, 2] ! 2) (round_double 1000000000) None
          = Some (case closest_loop_list (map (vec h) (drop 0 (take 2 [0, 1, 2]))) 0
                         (vec h ([0, 1, 2] ! 2)) (round_double 1000000000) None of
                    (md', cl') \<Rightarrow> (md', map_option ((!) [0, 1, 2]) cl'))"
    using p by (intro closest_mem_loop_refines) simp_all
  moreover from k have "[0, 1, 2::nat] ! k = k"
    by (cases k) (auto simp: less_Suc_eq numeral_3_eq_3 nth_Cons')
  ultimately show "closest_loop h (load h (Head 0)) 2 (round_double 1000000000) None
                     = Some (md, Some k)"
    unfolding v1 v2 c by simp
qed

lemma tie_heap_loops:
  "longest_transit_loop (list_heap tie_chain) (load (list_heap tie_chain) (Head 0)) 0 0 0 None
     = Some (Fin 1, Some 2)"
  "closest_loop (list_heap tie_chain) (load (list_heap tie_chain) (Head 0)) 2
     (round_double 1000000000) None = Some (Fin 1, Some 1)"
proof -
  have l: "longest_transit_loop_list tie_chain 0 0 0 0 None = (Fin 1, Some 2)"
    by (simp add: tie_chain_def fpeq_def eps_num double_simps)
  have c: "closest_loop_list (take 2 tie_chain) 0 (tie_chain ! 2) (round_double 1000000000) None
             = (Fin 1, Some 1)"
    by (simp add: tie_chain_def double_simps)
  from three_node_loops [OF tie_heap l c]
  show "longest_transit_loop (list_heap tie_chain) (load (list_heap tie_chain) (Head 0))
          0 0 0 None = Some (Fin 1, Some 2)"
    and "closest_loop (list_heap tie_chain) (load (list_heap tie_chain) (Head 0)) 2
          (round_double 1000000000) None = Some (Fin 1, Some 1)"
    by simp_all
qed

lemma round_heap_loops:
  "longest_transit_loop (list_heap round_chain) (load (list_heap round_chain) (Head 0))
     0 0 0 None = Some (Fin 30000, Some 2)"
  "closest_loop (list_heap round_chain) (load (list_heap round_chain) (Head 0)) 2
     (round_double 1000000000) None = Some (Fin 900000000, Some 1)"
proof -
  have l: "longest_transit_loop_list round_chain 0 0 0 0 None = (Fin 30000, Some 2)"
    using round_double_dyadic [of 1 20] round_double_dyadic [of 1 40] round_9e8
    by (simp add: round_chain_def fpeq_def eps_num double_simps sqrt_9e8)
  have c: "closest_loop_list (take 2 round_chain) 0 (round_chain ! 2)
             (round_double 1000000000) None = (Fin 900000000, Some 1)"
    using round_double_dyadic [of 1 20] round_double_dyadic [of 1 40] round_9e8
    by (simp add: round_chain_def double_simps)
  from three_node_loops [OF round_heap l c]
  show "longest_transit_loop (list_heap round_chain) (load (list_heap round_chain) (Head 0))
          0 0 0 None = Some (Fin 30000, Some 2)"
    and "closest_loop (list_heap round_chain) (load (list_heap round_chain) (Head 0)) 2
          (round_double 1000000000) None = Some (Fin 900000000, Some 1)"
    by simp_all
qed

lemma one_cut_longest:
  "longest_transit_loop (list_heap one_cut) (load (list_heap one_cut) (Head 0)) 0 0 0 None
     = Some (Fin 5, Some 0)"
proof -
  let ?H = "list_heap one_cut"
  have l: "longest_transit_loop_list one_cut 0 0 0 0 None = (Fin 5, Some 0)"
    by (simp add: one_cut_def fpeq_def eps_num double_simps sqrt_25)
  have "longest_transit_loop ?H (load ?H (Head 0)) 0 0 0 None
          = Some (case longest_transit_loop_list (map (vec ?H) [0]) 0 0 0 0 None of
                    (m', ti') \<Rightarrow> (m', map_option ((!) [0]) ti'))"
    by (rule longest_transit_mem_loop_refines [OF one_cut_path]) simp_all
  then show ?thesis unfolding one_cut_heap(2) l by simp
qed

lemma round_heap_dist:
  "sqdist_to (vec (list_heap round_chain) 2) (vec (list_heap round_chain) 0) = Fin 900000000"
  "sqdist_to (vec (list_heap round_chain) 2) (vec (list_heap round_chain) 1) = Fin 900000000"
  using round_double_dyadic [of 1 20] round_double_dyadic [of 1 40] round_9e8
  by (simp_all add: sqdist_to_def list_heap_def round_chain_def double_simps)

text \<open>
  \<^bold>\<open>C4\<close> (tie-break of the prefix search), as stated: among equally close
  segments of the prefix the earliest is selected. In the chain of the nodes 0, 1
  and 2 that carry \<open>tie_chain\<close>, node 2 has the longest transit, the B endpoints
  of node 0 and of node 1 are both at squared distance 1 from its A endpoint, and
  the search selects node 1, not node 0.
\<close>

theorem closest_prior_tie_counterexample:
  "longest_transit_loop (list_heap tie_chain) (load (list_heap tie_chain) (Head 0)) 0 0 0 None
     = Some (Fin 1, Some 2)
   \<and> sqdist_to (vec (list_heap tie_chain) 2) (vec (list_heap tie_chain) 0) = Fin 1
   \<and> sqdist_to (vec (list_heap tie_chain) 2) (vec (list_heap tie_chain) 1) = Fin 1
   \<and> closest_loop (list_heap tie_chain) (load (list_heap tie_chain) (Head 0)) 2
         (round_double 1000000000) None
       = Some (Fin 1, Some 1)"
  using tie_heap_loops
  by (simp add: sqdist_to_def list_heap_def tie_chain_def double_simps)

text \<open>
  \<^bold>\<open>C4\<close>, amended: the search replaces its candidate whenever the new squared
  distance is not greater, so the last equally close candidate wins. Let the
  chain be a well-formed list of the nodes \<open>as\<close>, and let the first loop of
  \<^verbatim>\<open>vector_refine\<close> find the node \<^verbatim>\<open>transit_v\<close>, at index \<open>t\<close>. The search
  ends. If it selects a node, the node lies before \<^verbatim>\<open>transit_v\<close> and every node
  of the prefix after it is strictly farther; and if none of the squared
  distances of the prefix is a NaN, the squared distance of the selected node is
  at most \<^verbatim>\<open>1e9\<close> and minimal over the prefix. If it selects no node, every node
  of the prefix is farther than \<^verbatim>\<open>1e9\<close> (or the prefix is empty), and
  \<^verbatim>\<open>vector_refine\<close> returns 0 and leaves the memory and the caller's position
  as they were. The squared distances are those that the program computes, in
  \<^verbatim>\<open>double\<close> arithmetic.
\<close>

theorem closest_prior_last_minimum:
  assumes "wf_list h r as"
    and "longest_transit_loop h (load h r) cx cy 0 None = Some (m, Some tv)"
  shows "\<exists>t md cl. t < length as \<and> tv = as ! t
     \<and> closest_loop h (load h r) tv (round_double 1000000000) None = Some (md, cl)
     \<and> (case cl of
           None \<Rightarrow>
             (\<forall>j<t. round_double 1000000000 < sqdist_to (vec h tv) (vec h (as ! j)))
             \<and> vector_refine h (load h r) cx cy = Some (Inr (h, cx, cy, 0))
         | Some c \<Rightarrow>
             (\<exists>k<t. c = as ! k
                \<and> (\<forall>j. k < j \<and> j < t \<longrightarrow>
                       sqdist_to (vec h tv) (vec h c) < sqdist_to (vec h tv) (vec h (as ! j)))
                \<and> ((\<forall>j<t. sqdist_to (vec h tv) (vec h (as ! j)) \<noteq> NaN) \<longrightarrow>
                     sqdist_to (vec h tv) (vec h c) \<le> round_double 1000000000
                     \<and> (\<forall>j<t. sqdist_to (vec h tv) (vec h c)
                                 \<le> sqdist_to (vec h tv) (vec h (as ! j))))))"
proof -
  let ?V = "map (vec h) as"
  from refine_mem_loops(2) [OF assms(1), of cx cy] assms(2) obtain t
    where lt: "longest_transit_list ?V cx cy = Some t" and tv: "tv = as ! t"
    by (cases "longest_transit_list ?V cx cy") auto
  from longest_transit_index [OF lt] have t: "t < length as" by simp
  then have tV: "t < length ?V" by simp
  have pd: "prior_dist ?V t j = sqdist_to (vec h tv) (vec h (as ! j))" if "j < t" for j
    using that t by (simp add: prior_dist_def tv)
  from refine_mem_loops(3) [OF assms(1) t] obtain md
    where m: "closest_loop h (load h r) tv (round_double 1000000000) None
                = Some (md, map_option ((!) as) (closest_prior_list ?V t))"
    unfolding tv by blast
  let ?P = "\<lambda>cl. case cl of
           None \<Rightarrow>
             (\<forall>j<t. round_double 1000000000 < sqdist_to (vec h tv) (vec h (as ! j)))
             \<and> vector_refine h (load h r) cx cy = Some (Inr (h, cx, cy, 0))
         | Some c \<Rightarrow>
             (\<exists>k<t. c = as ! k
                \<and> (\<forall>j. k < j \<and> j < t \<longrightarrow>
                       sqdist_to (vec h tv) (vec h c) < sqdist_to (vec h tv) (vec h (as ! j)))
                \<and> ((\<forall>j<t. sqdist_to (vec h tv) (vec h (as ! j)) \<noteq> NaN) \<longrightarrow>
                     sqdist_to (vec h tv) (vec h c) \<le> round_double 1000000000
                     \<and> (\<forall>j<t. sqdist_to (vec h tv) (vec h c)
                                 \<le> sqdist_to (vec h tv) (vec h (as ! j)))))"
  have "?P (map_option ((!) as) (closest_prior_list ?V t))"
  proof (cases "closest_prior_list ?V t")
    case None
    from closest_prior_None [OF tV None] pd
    have "\<forall>j<t. round_double 1000000000 < sqdist_to (vec h tv) (vec h (as ! j))" by simp
    moreover from lt None
    have "vector_refine h (load h r) cx cy = Some (Inr (h, cx, cy, 0))"
      by (intro vector_refine_mem_unchanged(1) [OF assms(1)]) simp
    ultimately show ?thesis using None by simp
  next
    case (Some k)
    from closest_prior_Some [OF tV Some]
    have k: "k < t"
      and lt': "\<forall>j. k < j \<and> j < t \<longrightarrow> prior_dist ?V t k < prior_dist ?V t j"
      and mn: "(\<forall>j<t. prior_dist ?V t j \<noteq> NaN)
                 \<longrightarrow> prior_dist ?V t k \<le> round_double 1000000000
                     \<and> (\<forall>j<t. prior_dist ?V t k \<le> prior_dist ?V t j)"
      by simp_all
    have 1: "\<forall>j. k < j \<and> j < t \<longrightarrow>
               sqdist_to (vec h tv) (vec h (as ! k)) < sqdist_to (vec h tv) (vec h (as ! j))"
      using lt' k by (simp add: pd)
    have 2: "(\<forall>j<t. sqdist_to (vec h tv) (vec h (as ! j)) \<noteq> NaN) \<longrightarrow>
               sqdist_to (vec h tv) (vec h (as ! k)) \<le> round_double 1000000000
               \<and> (\<forall>j<t. sqdist_to (vec h tv) (vec h (as ! k))
                           \<le> sqdist_to (vec h tv) (vec h (as ! j)))"
      using mn k by (simp add: pd)
    from k 1 2 have "\<exists>k'<t. as ! k = as ! k'
          \<and> (\<forall>j. k' < j \<and> j < t \<longrightarrow>
                 sqdist_to (vec h tv) (vec h (as ! k))
                   < sqdist_to (vec h tv) (vec h (as ! j)))
          \<and> ((\<forall>j<t. sqdist_to (vec h tv) (vec h (as ! j)) \<noteq> NaN) \<longrightarrow>
               sqdist_to (vec h tv) (vec h (as ! k)) \<le> round_double 1000000000
               \<and> (\<forall>j<t. sqdist_to (vec h tv) (vec h (as ! k))
                           \<le> sqdist_to (vec h tv) (vec h (as ! j))))"
      by (intro exI [of _ k]) simp
    with Some show ?thesis by simp
  qed
  with t tv m show ?thesis by blast
qed

theorem closest_prior_last_minimum_witness:
  "wf_list (list_heap round_chain) (Head 0) [0, 1, 2]
   \<and> longest_transit_loop (list_heap round_chain) (load (list_heap round_chain) (Head 0))
       0 0 0 None = Some (Fin 30000, Some 2)
   \<and> closest_loop (list_heap round_chain) (load (list_heap round_chain) (Head 0)) 2
       (round_double 1000000000) None = Some (Fin 900000000, Some 1)
   \<and> sqdist_to (vec (list_heap round_chain) 2) (vec (list_heap round_chain) 0) = Fin 900000000
   \<and> sqdist_to (vec (list_heap round_chain) 2) (vec (list_heap round_chain) 1) = Fin 900000000
   \<and> sqdist_to (vec (list_heap round_chain) 2) (vec (list_heap round_chain) 1)
       \<le> round_double 1000000000
   \<and> sqdist_to (vec (list_heap round_chain) 2) (vec (list_heap round_chain) 1)
       \<le> sqdist_to (vec (list_heap round_chain) 2) (vec (list_heap round_chain) 0)
   \<and> wf_list (list_heap one_cut) (Head 0) [0]
   \<and> longest_transit_loop (list_heap one_cut) (load (list_heap one_cut) (Head 0)) 0 0 0 None
       = Some (Fin 5, Some 0)
   \<and> (\<exists>md. closest_loop (list_heap one_cut) (load (list_heap one_cut) (Head 0)) 0
               (round_double 1000000000) None = Some (md, None))
   \<and> vector_refine (list_heap one_cut) (load (list_heap one_cut) (Head 0)) 0 0
       = Some (Inr (list_heap one_cut, 0, 0, 0))"
proof -
  let ?G = "list_heap one_cut"
  from closest_prior_last_minimum [OF one_cut_heap(1) one_cut_longest]
  obtain u nd nl
    where u: "u < length [0::nat]"
      and g: "closest_loop ?G (load ?G (Head 0)) 0 (round_double 1000000000) None
                = Some (nd, nl)"
      and q: "case nl of
           None \<Rightarrow>
             (\<forall>j<u. round_double 1000000000
                      < sqdist_to (vec ?G 0) (vec ?G ([0] ! j)))
             \<and> vector_refine ?G (load ?G (Head 0)) 0 0 = Some (Inr (?G, 0, 0, 0))
         | Some c \<Rightarrow> (\<exists>k<u. c = [0] ! k)"
    by (auto split: option.splits)
  from u have "u = 0" by simp
  with q have nl: "nl = None"
    and rf: "vector_refine ?G (load ?G (Head 0)) 0 0 = Some (Inr (?G, 0, 0, 0))"
    by (auto split: option.splits)
  from g nl have cl0: "\<exists>md. closest_loop ?G (load ?G (Head 0)) 0
                              (round_double 1000000000) None = Some (md, None)"
    by simp
  let ?H = "list_heap round_chain"
  let ?d = "\<lambda>a. sqdist_to (vec ?H 2) (vec ?H a)"
  from closest_prior_last_minimum [OF round_heap(1) round_heap_loops(1)]
  obtain t md cl
    where t: "t < length [0, 1, 2::nat]" "(2::nat) = [0, 1, 2] ! t"
      and c: "closest_loop ?H (load ?H (Head 0)) 2 (round_double 1000000000) None = Some (md, cl)"
      and p: "case cl of
           None \<Rightarrow>
             (\<forall>j<t. round_double 1000000000 < ?d ([0, 1, 2] ! j))
             \<and> vector_refine ?H (load ?H (Head 0)) 0 0 = Some (Inr (?H, 0, 0, 0))
         | Some c \<Rightarrow>
             (\<exists>k<t. c = [0, 1, 2] ! k
                \<and> (\<forall>j. k < j \<and> j < t \<longrightarrow> ?d c < ?d ([0, 1, 2] ! j))
                \<and> ((\<forall>j<t. ?d ([0, 1, 2] ! j) \<noteq> NaN) \<longrightarrow>
                     ?d c \<le> round_double 1000000000
                     \<and> (\<forall>j<t. ?d c \<le> ?d ([0, 1, 2] ! j))))"
    by blast
  from t have t2: "t = 2"
    by (cases t) (auto simp: less_Suc_eq nth_Cons')
  from c round_heap_loops(2) have cl: "cl = Some 1" by simp
  have nn: "\<forall>j<2. ?d ([0, 1, 2] ! j) \<noteq> NaN"
    using round_heap_dist by (auto simp: less_Suc_eq numeral_2_eq_2)
  from p [unfolded cl t2] nn
  have "?d 1 \<le> round_double 1000000000 \<and> (\<forall>j<2. ?d 1 \<le> ?d ([0, 1, 2] ! j))"
    by auto
  then have "?d 1 \<le> round_double 1000000000 \<and> ?d 1 \<le> ?d 0"
    by force
  with round_heap(1) round_heap_loops round_heap_dist one_cut_heap(1) one_cut_longest cl0 rf
  show ?thesis by (intro conjI) simp_all
qed

lemma continuous_heap:
  "wf_list (list_heap continuous_chain) (Head 0) [0, 1]"
  "map (vec (list_heap continuous_chain)) [0, 1] = continuous_chain"
proof -
  have e: "[0..<length continuous_chain] = [0, 1]" by (simp add: continuous_chain_def upt_2)
  from list_heap_wf [of continuous_chain]
  show "wf_list (list_heap continuous_chain) (Head 0) [0, 1]"
    and "map (vec (list_heap continuous_chain)) [0, 1] = continuous_chain"
    unfolding e .
qed

lemma offset_heap:
  "wf_list (list_heap offset_chain) (Head 0) [0, 1, 2]"
  "map (vec (list_heap offset_chain)) [0, 1, 2] = offset_chain"
proof -
  have e: "[0..<length offset_chain] = [0, 1, 2]" by (simp add: offset_chain_def upt_3)
  from list_heap_wf [of offset_chain]
  show "wf_list (list_heap offset_chain) (Head 0) [0, 1, 2]"
    and "map (vec (list_heap offset_chain)) [0, 1, 2] = offset_chain"
    unfolding e .
qed

lemma sqrt_offset: "sqrt (2025 / 18446744073709551616) = 45 / 4294967296"
  by (rule real_sqrt_unique) (simp_all add: power2_eq_square)

lemmas offset_rounding =
  round_double_dyadic [of 27 32] round_double_dyadic [of "- 27" 32]
  round_double_dyadic [of 36 32] round_double_dyadic [of "- 36" 32]
  round_double_dyadic [of 45 32] round_double_dyadic [of 90 32]
  round_double_dyadic [of 729 64] round_double_dyadic [of 1296 64]
  round_double_dyadic [of 2025 64]
  round_double_dyadic [of 4294967323 32] round_double_dyadic [of 8589934619 32]

lemma offset_chain_coincident: "coincident offset_chain 0 0"
  using offset_rounding
  by (simp add: offset_chain_def fpeq_def eps_num double_simps)

lemma offset_chain_longest: "longest_transit_list offset_chain 0 0 = Some 1"
  using offset_rounding
  by (simp add: offset_chain_def longest_transit_list_def fpeq_def eps_num double_simps
      sqrt_offset Let_def)

lemma offset_chain_closest: "closest_prior_list offset_chain 1 = Some 0"
  using offset_rounding
  by (simp add: offset_chain_def closest_prior_list_def double_simps)

lemma offset_chain_tail:
  "vector_optimize_list (drop (Suc 0) (take 1 offset_chain) @ drop (Suc 1) offset_chain)
     (Fin 2) (Fin 0)
     = Inr ([\<lparr>x1 = Fin 2, y1 = Fin 0, x2 = Fin (2 + 27 / 2 ^ 32), y2 = Fin (36 / 2 ^ 32)\<rparr>],
            Fin (2 + 27 / 2 ^ 32), Fin (36 / 2 ^ 32))"
  using offset_rounding
  by (simp add: offset_chain_def run_simps double_simps)

lemma offset_chain_len:
  "vector_transit_len_list offset_chain = Fin (90 / 2 ^ 32)"
  "vector_transit_len_list
     (take (Suc 0) offset_chain @ offset_chain ! 1
        # [\<lparr>x1 = Fin 2, y1 = Fin 0, x2 = Fin (2 + 27 / 2 ^ 32), y2 = Fin (36 / 2 ^ 32)\<rparr>])
     = Fin (45 / 2 ^ 32)"
  using offset_rounding
  by (simp_all add: offset_chain_def vector_transit_len_list_def double_simps sqrt_offset
      Let_def)

lemma offset_chain_reduction: "Fin (90 / 2 ^ 32) - Fin (45 / 2 ^ 32) = Fin (45 / 2 ^ 32)"
  using offset_rounding by (simp add: double_simps)

text \<open>
  \<^bold>\<open>C8\<close> (no positive transit), as stated: if the A endpoint of each segment
  coincides within the tolerance, on each coordinate, with the position of the
  pen, \<^verbatim>\<open>vector_refine\<close> returns 0 and leaves the chain unchanged. It fails on
  the chain of the nodes 0, 1 and 2 that carry \<open>offset_chain\<close>: each coordinate
  is within the tolerance, but the transit length to node 1 is not, so that node
  1 is taken for the longest transit, the nodes after it are sequenced again,
  the segment of node 2 is reversed, and the value returned is not 0.
\<close>

theorem vector_refine_coincident_counterexample:
  "wf_list (list_heap offset_chain) (Head 0) [0, 1, 2]
   \<and> coincident (map (vec (list_heap offset_chain)) [0, 1, 2]) 0 0
   \<and> vec (list_heap offset_chain) 2
       = \<lparr>x1 = Fin (2 + 27 / 2 ^ 32), y1 = Fin (36 / 2 ^ 32), x2 = Fin 2, y2 = Fin 0\<rparr>
   \<and> (\<exists>h'. vector_refine (list_heap offset_chain) (load (list_heap offset_chain) (Head 0)) 0 0
              = Some (Inr (h', Fin (2 + 27 / 2 ^ 32), Fin (36 / 2 ^ 32), Fin (45 / 2 ^ 32)))
          \<and> wf_list h' (Head 0) [0, 1, 2]
          \<and> vec h' 2
              = \<lparr>x1 = Fin 2, y1 = Fin 0, x2 = Fin (2 + 27 / 2 ^ 32), y2 = Fin (36 / 2 ^ 32)\<rparr>)"
proof -
  let ?H = "list_heap offset_chain"
  let ?v = "\<lparr>x1 = Fin 2, y1 = Fin 0, x2 = Fin (2 + 27 / 2 ^ 32), y2 = Fin (36 / 2 ^ 32)\<rparr>"
  note w = offset_heap(1)
  have co: "coincident (map (vec ?H) [0, 1, 2]) 0 0"
    unfolding offset_heap(2) by (rule offset_chain_coincident)
  have lt: "longest_transit_list (map (vec ?H) [0, 1, 2]) 0 0 = Some 1"
    unfolding offset_heap(2) by (rule offset_chain_longest)
  have cp: "closest_prior_list (map (vec ?H) [0, 1, 2]) 1 = Some 0"
    unfolding offset_heap(2) by (rule offset_chain_closest)
  have v: "map (vec ?H) (drop (Suc 0) (take 1 [0, 1, 2]) @ drop (Suc 1) [0, 1, 2])
             = drop (Suc 0) (take 1 offset_chain) @ drop (Suc 1) offset_chain"
    "x2 (nodes ?H ([0, 1, 2] ! 1)) = Fin 2" "y2 (nodes ?H ([0, 1, 2] ! 1)) = Fin 0"
    "vec ?H 2 = \<lparr>x1 = Fin (2 + 27 / 2 ^ 32), y1 = Fin (36 / 2 ^ 32), x2 = Fin 2, y2 = Fin 0\<rparr>"
    using offset_heap(2)
    by (simp_all add: offset_chain_def list_heap_def vec_def vector.truncate_def)
  from vector_refine_mem_relinks(4) [OF w lt cp, unfolded v offset_chain_tail,
      simplified sum.case prod.case]
  obtain h' cs red
    where r: "vector_refine ?H (load ?H (Head 0)) 0 0
                = Some (Inr (h', Fin (2 + 27 / 2 ^ 32), Fin (36 / 2 ^ 32), red))"
      and l: "vector_refine_list (map (vec ?H) [0, 1, 2]) 0 0
                = Inr (map (vec ?H) (take 0 [0, 1, 2] @ [[0, 1, 2] ! 0, [0, 1, 2] ! 1]) @ [?v],
                       Fin (2 + 27 / 2 ^ 32), Fin (36 / 2 ^ 32), red)"
      and c: "wf_list h' (Head 0) (take 0 [0, 1, 2] @ [0, 1, 2] ! 0 # [0, 1, 2] ! 1 # cs)"
        "map (vec h') cs = [?v]"
        "set cs = set (drop (Suc 0) (take 1 [0, 1, 2]) @ drop (Suc 1) [0, 1, 2::nat])"
    by (elim exE conjE) (rule that; assumption)
  have xy: "x2 (offset_chain ! 1) = Fin 2" "y2 (offset_chain ! 1) = Fin 0"
    by (simp_all add: offset_chain_def)
  from vector_refine_relink [OF offset_chain_longest offset_chain_closest]
  have "vector_refine_list offset_chain 0 0
          = Inr (take (Suc 0) offset_chain @ offset_chain ! 1 # [?v],
                 Fin (2 + 27 / 2 ^ 32), Fin (36 / 2 ^ 32), Fin (45 / 2 ^ 32))"
    unfolding xy offset_chain_tail
    by (simp only: sum.case prod.case offset_chain_len offset_chain_reduction)
  with l have red: "red = Fin (45 / 2 ^ 32)" unfolding offset_heap(2) by simp
  from c(2) have "length cs = 1" by (metis length_map length_Cons list.size(3) One_nat_def)
  then obtain a where "cs = [a]" by (cases cs) auto
  with c(3) have cs: "cs = [2]" by simp
  from c(1) have 1: "wf_list h' (Head 0) [0, 1, 2]" unfolding cs by simp
  from c(2) have 2: "vec h' 2 = ?v" unfolding cs by simp
  from r 1 2 have "\<exists>h'. vector_refine ?H (load ?H (Head 0)) 0 0
              = Some (Inr (h', Fin (2 + 27 / 2 ^ 32), Fin (36 / 2 ^ 32), Fin (45 / 2 ^ 32)))
          \<and> wf_list h' (Head 0) [0, 1, 2] \<and> vec h' 2 = ?v"
    unfolding red by (intro exI conjI)
  with w co v(4) show ?thesis by (intro conjI)
qed

text \<open>
  \<^bold>\<open>C8\<close>, amended: the chain has no positive transit when each transit length,
  as \<^verbatim>\<open>vector_refine\<close> computes it for a pen that starts at the position passed
  in, is within the tolerance of zero (\<^verbatim>\<open>fpeq(transit_len, 0)\<close>). Let the chain
  be a well-formed list. Then \<^verbatim>\<open>vector_refine\<close> returns 0 and leaves the memory
  and the caller's position as they were.
\<close>

theorem vector_refine_no_transit:
  assumes "wf_list h r as" and "no_transit (map (vec h) as) cx cy"
  shows "vector_refine h (load h r) cx cy = Some (Inr (h, cx, cy, 0))"
proof -
  from longest_transit_loop_none [OF assms(2), of 0 0 None]
  have "longest_transit_list (map (vec h) as) cx cy = None"
    by (simp add: longest_transit_list_def)
  then show ?thesis by (intro vector_refine_mem_unchanged(1) [OF assms(1)]) simp
qed

theorem vector_refine_no_transit_witness:
  "wf_list (list_heap continuous_chain) (Head 0) [0, 1]
   \<and> no_transit (map (vec (list_heap continuous_chain)) [0, 1]) 0 0
   \<and> vector_refine (list_heap continuous_chain) (load (list_heap continuous_chain) (Head 0)) 0 0
       = Some (Inr (list_heap continuous_chain, 0, 0, 0))"
proof -
  have n: "no_transit (map (vec (list_heap continuous_chain)) [0, 1]) 0 0"
    unfolding continuous_heap(2)
    by (simp add: continuous_chain_def fpeq_def eps_num double_simps)
  from vector_refine_no_transit [OF continuous_heap(1) n] continuous_heap(1) n
  show ?thesis by simp
qed

text \<open>
  \<^bold>\<open>C7\<close> (frame of the relocation). Let the chain be a well-formed list of the
  nodes \<open>as\<close>, let the first loop of \<^verbatim>\<open>vector_refine\<close> find the node \<open>tv\<close> with the
  longest transit and the second loop select the node \<open>cl\<close>. Then \<open>cl\<close> lies
  before \<open>tv\<close> in the chain, \<open>as = A @ cl # B @ tv # C\<close>, and \<^verbatim>\<open>vector_refine\<close>
  ends. When it returns, the chain hangs at the same place, with the same first
  node, and is the well-formed list \<open>A @ cl # tv # cs\<close>: the nodes up to \<open>cl\<close>
  are in their places, \<open>tv\<close> follows \<open>cl\<close>, and the segments of all of them are
  as they were; \<open>cs\<close> consists of the remaining nodes \<open>B @ C\<close> and carries the
  result of sequencing their segments from the B endpoint of \<open>tv\<close>, hence the
  same segments up to order and direction. Otherwise it ends by the \<^verbatim>\<open>abort()\<close>
  of the nested \<^verbatim>\<open>vector_optimize\<close>, which needs a remaining segment out of
  reach.
\<close>

theorem vector_refine_frame:
  assumes "wf_list h r as"
    and "longest_transit_loop h (load h r) cx cy 0 None = Some (m, Some tv)"
    and "closest_loop h (load h r) tv (round_double 1000000000) None = Some (md, Some cl)"
  shows "\<exists>A B C. as = A @ cl # B @ tv # C
     \<and> (case vector_refine h (load h r) cx cy of
           None \<Rightarrow> False
         | Some (Inl e) \<Rightarrow>
             \<not> all_in_radius (map (vec h) (B @ C)) (x2 (nodes h tv)) (y2 (nodes h tv))
         | Some (Inr (h', ex, ey, red)) \<Rightarrow>
             (\<exists>cs. wf_list h' r (A @ cl # tv # cs)
                \<and> map (vec h') (A @ [cl, tv]) = map (vec h) (A @ [cl, tv])
                \<and> load h' r = load h r
                \<and> set cs = set (B @ C)
                \<and> vector_optimize_list (map (vec h) (B @ C)) (x2 (nodes h tv)) (y2 (nodes h tv))
                    = Inr (map (vec h') cs, ex, ey)
                \<and> image_mset endpoint_pair (mset (map (vec h') cs))
                    = image_mset endpoint_pair (mset (map (vec h) (B @ C)))))"
proof -
  let ?V = "map (vec h) as"
  from refine_mem_loops(2) [OF assms(1), of cx cy] assms(2) obtain t
    where lt: "longest_transit_list ?V cx cy = Some t" and tv: "tv = as ! t"
    by (cases "longest_transit_list ?V cx cy") auto
  from longest_transit_index [OF lt] have t: "t < length as" by simp
  from refine_mem_loops(3) [OF assms(1) t] assms(3) obtain c
    where cp: "closest_prior_list ?V t = Some c" and cl: "cl = as ! c"
    unfolding tv by (cases "closest_prior_list ?V t") auto
  define A where "A = take c as"
  define B where "B = drop (Suc c) (take t as)"
  define C where "C = drop (Suc t) as"
  note rl = vector_refine_mem_relinks [OF assms(1) lt cp, folded A_def B_def C_def tv cl]
  let ?P = "\<lambda>h' ex ey cs. wf_list h' r (A @ cl # tv # cs)
                \<and> map (vec h') (A @ [cl, tv]) = map (vec h) (A @ [cl, tv])
                \<and> load h' r = load h r
                \<and> set cs = set (B @ C)
                \<and> vector_optimize_list (map (vec h) (B @ C)) (x2 (nodes h tv)) (y2 (nodes h tv))
                    = Inr (map (vec h') cs, ex, ey)
                \<and> image_mset endpoint_pair (mset (map (vec h') cs))
                    = image_mset endpoint_pair (mset (map (vec h) (B @ C)))"
  have "case vector_refine h (load h r) cx cy of
           None \<Rightarrow> False
         | Some (Inl e) \<Rightarrow>
             \<not> all_in_radius (map (vec h) (B @ C)) (x2 (nodes h tv)) (y2 (nodes h tv))
         | Some (Inr (h', ex, ey, red)) \<Rightarrow> (\<exists>cs. ?P h' ex ey cs)"
  proof (cases "vector_optimize_list (map (vec h) (B @ C)) (x2 (nodes h tv)) (y2 (nodes h tv))")
    case (Inl e)
    with rl(4) have "vector_refine h (load h r) cx cy = Some (Inl e)" by simp
    with vector_optimize_Abort [OF Inl] show ?thesis by simp
  next
    case (Inr res)
    obtain vals ex ey where res: "res = (vals, ex, ey)" by (cases res) auto
    from rl(4) Inr res obtain h' cs red
      where 1: "vector_refine h (load h r) cx cy = Some (Inr (h', ex, ey, red))"
        and 3: "wf_list h' r (A @ cl # tv # cs)"
        and 4: "map (vec h') (A @ [cl, tv]) = map (vec h) (A @ [cl, tv])"
        and 5: "map (vec h') cs = vals"
        and 6: "set cs = set (B @ C)"
        and 7: "load h' r = load h r"
      by auto
    from vector_optimize_result [of "map (vec h) (B @ C)" _ _ vals ex ey] Inr res
    have "image_mset endpoint_pair (mset vals)
            = image_mset endpoint_pair (mset (map (vec h) (B @ C)))"
      by simp
    with 3 4 5 6 7 Inr res have "?P h' ex ey cs" by simp
    then have "\<exists>cs. ?P h' ex ey cs" ..
    then show ?thesis unfolding 1 by simp
  qed
  with rl(3) show ?thesis by blast
qed

lemma detour_heap:
  "wf_list (list_heap detour_chain) (Head 0) [0, 1, 2, 3]"
  "map (vec (list_heap detour_chain)) [0, 1, 2, 3] = detour_chain"
proof -
  have e: "[0..<length detour_chain] = [0, 1, 2, 3]" by (simp add: detour_chain_def upt_4)
  from list_heap_wf [of detour_chain]
  show "wf_list (list_heap detour_chain) (Head 0) [0, 1, 2, 3]"
    and "map (vec (list_heap detour_chain)) [0, 1, 2, 3] = detour_chain"
    unfolding e .
qed

lemma detour_heap_loops:
  "longest_transit_loop (list_heap detour_chain) (load (list_heap detour_chain) (Head 0))
     0 0 0 None = Some (Fin 5, Some 2)"
  "closest_loop (list_heap detour_chain) (load (list_heap detour_chain) (Head 0))
     2 (round_double 1000000000) None = Some (Fin 20, Some 0)"
proof -
  let ?H = "list_heap detour_chain"
  have p: "path ?H (load ?H (Head 0)) [0, 1, 2, 3]"
    using detour_heap(1) by (intro dll_path) (simp add: wf_list_def)
  have l: "longest_transit_loop_list detour_chain 0 0 0 0 None = (Fin 5, Some 2)"
    by (simp add: detour_chain_def fpeq_def eps_num double_simps sqrt_16 sqrt_25 sqrt_9)
  have "longest_transit_loop ?H (load ?H (Head 0)) 0 0 0 None
          = Some (case longest_transit_loop_list (map (vec ?H) [0, 1, 2, 3]) 0 0 0 0 None of
                    (m', ti') \<Rightarrow> (m', map_option ((!) [0, 1, 2, 3]) ti'))"
    by (rule longest_transit_mem_loop_refines [OF p]) simp_all
  then show "longest_transit_loop ?H (load ?H (Head 0)) 0 0 0 None = Some (Fin 5, Some 2)"
    unfolding detour_heap(2) l by simp
  have c: "closest_loop_list (take 2 detour_chain) 0 (detour_chain ! 2)
             (round_double 1000000000) None = (Fin 20, Some 0)"
    by (simp add: detour_chain_def double_simps)
  have "vec ?H ([0, 1, 2, 3] ! 2) = map (vec ?H) [0, 1, 2, 3] ! 2" by simp
  then have v2: "vec ?H ([0, 1, 2, 3] ! 2) = detour_chain ! 2" unfolding detour_heap(2) .
  have "map (vec ?H) (drop 0 (take 2 [0, 1, 2, 3])) = take 2 (map (vec ?H) [0, 1, 2, 3])"
    by (simp only: drop_0 take_map)
  then have v1: "map (vec ?H) (drop 0 (take 2 [0, 1, 2, 3])) = take 2 detour_chain"
    unfolding detour_heap(2) .
  have "closest_loop ?H (load ?H (Head 0)) ([0, 1, 2, 3] ! 2) (round_double 1000000000) None
          = Some (case closest_loop_list (map (vec ?H) (drop 0 (take 2 [0, 1, 2, 3]))) 0
                         (vec ?H ([0, 1, 2, 3] ! 2)) (round_double 1000000000) None of
                    (md', cl') \<Rightarrow> (md', map_option ((!) [0, 1, 2, 3]) cl'))"
    using p by (intro closest_mem_loop_refines) simp_all
  then show "closest_loop ?H (load ?H (Head 0)) 2 (round_double 1000000000) None = Some (Fin 20, Some 0)"
    unfolding v1 v2 c by simp
qed

theorem vector_refine_frame_witness:
  "wf_list (list_heap detour_chain) (Head 0) [0, 1, 2, 3]
   \<and> longest_transit_loop (list_heap detour_chain) (load (list_heap detour_chain) (Head 0))
       0 0 0 None = Some (Fin 5, Some 2)
   \<and> closest_loop (list_heap detour_chain) (load (list_heap detour_chain) (Head 0))
       2 (round_double 1000000000) None = Some (Fin 20, Some 0)
   \<and> (\<exists>h' red cs.
         vector_refine (list_heap detour_chain) (load (list_heap detour_chain) (Head 0)) 0 0
           = Some (Inr (h', Fin 5, Fin 0, red))
         \<and> wf_list h' (Head 0) (0 # 2 # cs)
         \<and> map (vec h') [0, 2] = [\<lparr>x1 = Fin 0, y1 = Fin 0, x2 = Fin 1, y2 = Fin 0\<rparr>, \<lparr>x1 = Fin 3, y1 = Fin 4, x2 = Fin 6, y2 = Fin 4\<rparr>]
         \<and> set cs = {1, 3}
         \<and> map (vec h') cs = [\<lparr>x1 = Fin 6, y1 = Fin 2, x2 = Fin 6, y2 = Fin 1\<rparr>, \<lparr>x1 = Fin 6, y1 = Fin 0, x2 = Fin 5, y2 = Fin 0\<rparr>])"
proof -
  let ?H = "list_heap detour_chain"
  from vector_refine_frame [OF detour_heap(1) detour_heap_loops] obtain A B C
    where d: "[0, 1, 2, 3] = A @ (0::nat) # B @ 2 # C"
      and r: "case vector_refine ?H (load ?H (Head 0)) 0 0 of
           None \<Rightarrow> False
         | Some (Inl e) \<Rightarrow>
             \<not> all_in_radius (map (vec ?H) (B @ C)) (x2 (nodes ?H 2)) (y2 (nodes ?H 2))
         | Some (Inr (h', ex, ey, red)) \<Rightarrow>
             (\<exists>cs. wf_list h' (Head 0) (A @ 0 # 2 # cs)
                \<and> map (vec h') (A @ [0, 2]) = map (vec ?H) (A @ [0, 2])
                \<and> load h' (Head 0) = load ?H (Head 0)
                \<and> set cs = set (B @ C)
                \<and> vector_optimize_list (map (vec ?H) (B @ C)) (x2 (nodes ?H 2)) (y2 (nodes ?H 2))
                    = Inr (map (vec h') cs, ex, ey)
                \<and> image_mset endpoint_pair (mset (map (vec h') cs))
                    = image_mset endpoint_pair (mset (map (vec ?H) (B @ C))))"
    by blast
  from d have abc: "A = [] \<and> B = [1] \<and> C = [3]"
    by (cases A; cases B) (auto simp: Cons_eq_append_conv)
  have v: "map (vec ?H) [1, 3] = drop (Suc 0) (take 2 detour_chain) @ drop (Suc 2) detour_chain"
    "map (vec ?H) [0, 2] = [\<lparr>x1 = Fin 0, y1 = Fin 0, x2 = Fin 1, y2 = Fin 0\<rparr>, \<lparr>x1 = Fin 3, y1 = Fin 4, x2 = Fin 6, y2 = Fin 4\<rparr>]"
    "x2 (nodes ?H 2) = Fin 6" "y2 (nodes ?H 2) = Fin 4"
    using detour_heap(2) by (simp_all add: detour_chain_def list_heap_def)
  have t: "vector_optimize_list (map (vec ?H) [1, 3]) (x2 (nodes ?H 2)) (y2 (nodes ?H 2))
             = Inr ([\<lparr>x1 = Fin 6, y1 = Fin 2, x2 = Fin 6, y2 = Fin 1\<rparr>, \<lparr>x1 = Fin 6, y1 = Fin 0, x2 = Fin 5, y2 = Fin 0\<rparr>], Fin 5, Fin 0)"
    unfolding v detour_chain_tail ..
  have reach: "all_in_radius (map (vec ?H) [1, 3]) (Fin 6) (Fin 4)"
    unfolding v(1)
    by (simp add: detour_chain_def all_in_radius_def in_radius_def endpoints_def
        sqdist_A_def sqdist_B_def double_simps)
  have "\<exists>h' red cs.
         vector_refine ?H (load ?H (Head 0)) 0 0 = Some (Inr (h', Fin 5, Fin 0, red))
         \<and> wf_list h' (Head 0) (0 # 2 # cs)
         \<and> map (vec h') [0, 2] = [\<lparr>x1 = Fin 0, y1 = Fin 0, x2 = Fin 1, y2 = Fin 0\<rparr>, \<lparr>x1 = Fin 3, y1 = Fin 4, x2 = Fin 6, y2 = Fin 4\<rparr>]
         \<and> set cs = {1, 3}
         \<and> map (vec h') cs = [\<lparr>x1 = Fin 6, y1 = Fin 2, x2 = Fin 6, y2 = Fin 1\<rparr>, \<lparr>x1 = Fin 6, y1 = Fin 0, x2 = Fin 5, y2 = Fin 0\<rparr>]"
  proof (cases "vector_refine ?H (load ?H (Head 0)) 0 0")
    case None
    with r show ?thesis by simp
  next
    case (Some res)
    show ?thesis
    proof (cases res)
      case (Inl e)
      with r Some abc reach v(3,4) show ?thesis by simp
    next
      case (Inr q)
      obtain h' ex ey red where q: "q = (h', ex, ey, red)" by (cases q) auto
      from r Some Inr q abc obtain cs
        where 1: "wf_list h' (Head 0) (0 # 2 # cs)"
          and 2: "map (vec h') [0, 2] = map (vec ?H) [0, 2]"
          and 3: "set cs = set [1, 3]"
          and 4: "vector_optimize_list (map (vec ?H) [1, 3]) (x2 (nodes ?H 2)) (y2 (nodes ?H 2))
                    = Inr (map (vec h') cs, ex, ey)"
        by auto
      from 4 t have 5: "map (vec h') cs = [\<lparr>x1 = Fin 6, y1 = Fin 2, x2 = Fin 6, y2 = Fin 1\<rparr>, \<lparr>x1 = Fin 6, y1 = Fin 0, x2 = Fin 5, y2 = Fin 0\<rparr>]"
        and 6: "ex = Fin 5" "ey = Fin 0" by simp_all
      from 3 have 7: "set cs = {1, 3}" by simp
      from 2 have 8: "map (vec h') [0, 2] = [\<lparr>x1 = Fin 0, y1 = Fin 0, x2 = Fin 1, y2 = Fin 0\<rparr>, \<lparr>x1 = Fin 3, y1 = Fin 4, x2 = Fin 6, y2 = Fin 4\<rparr>]"
        unfolding v(2) .
      have 9: "vector_refine ?H (load ?H (Head 0)) 0 0 = Some (Inr (h', Fin 5, Fin 0, red))"
        using Some Inr q 6 by simp
      from 9 1 8 7 5 show ?thesis by (intro exI conjI)
    qed
  qed
  with detour_heap(1) detour_heap_loops show ?thesis by (intro conjI)
qed

end
